theory Spec2Isabelle
  imports Main "HOL-Library.Sublist" "HOL-Library.AList"
begin

section \<open>The path functions of the platform\<close>

text \<open>
  The service builds every file name with Node's \<^verbatim>\<open>path\<close> module (POSIX flavour):
  \<^verbatim>\<open>path.extname\<close>, \<^verbatim>\<open>path.parse\<close> and \<^verbatim>\<open>path.join\<close>. JavaScript indices are
  modelled as \<open>int\<close>, with \<open>-1\<close> for "not found", as the scanning loops use it.
\<close>

definition slice :: "string \<Rightarrow> int \<Rightarrow> int \<Rightarrow> string" where
  \<comment> \<open>\<^verbatim>\<open>s.slice(a, b)\<close> for \<open>0 \<le> a\<close> and \<open>0 \<le> b\<close>\<close>
  "slice s a b = take (nat (b - a)) (drop (nat a) s)"

record scan =
  startDot :: int
  startPart :: int
  endIdx :: int
  matchedSlash :: bool
  preDotState :: int

definition scan_init :: scan where
  "scan_init = \<lparr>startDot = -1, startPart = 0, endIdx = -1, matchedSlash = True, preDotState = 0\<rparr>"

text \<open>
  The loop shared by \<^verbatim>\<open>extname\<close> and \<^verbatim>\<open>parse\<close>:
  \<^verbatim>\<open>for (; i >= start; --i) { const code = path.charCodeAt(i); ... }\<close>.
  It walks the path from its end, stops at the separator that begins the last portion
  (\<^verbatim>\<open>break\<close>), and records the last dot of that portion and what precedes it.
\<close>

function scan_loop :: "string \<Rightarrow> int \<Rightarrow> int \<Rightarrow> scan \<Rightarrow> scan" where
  "scan_loop path start i s =
     (if i < start \<or> i < 0 then s \<comment> \<open>\<open>start\<close> is 0 or 1, so this is the test \<^verbatim>\<open>i >= start\<close>\<close>
      else
        let code = path ! nat i in
        if code = CHR ''/'' then
          (if \<not> matchedSlash s then s\<lparr>startPart := i + 1\<rparr>
           else scan_loop path start (i - 1) s)
        else
          let s1 = (if endIdx s = -1 then s\<lparr>matchedSlash := False, endIdx := i + 1\<rparr> else s);
              s2 = (if code = CHR ''.'' then
                      (if startDot s1 = -1 then s1\<lparr>startDot := i\<rparr>
                       else if preDotState s1 \<noteq> 1 then s1\<lparr>preDotState := 1\<rparr>
                       else s1)
                    else if startDot s1 \<noteq> -1 then s1\<lparr>preDotState := -1\<rparr>
                    else s1)
          in scan_loop path start (i - 1) s2)"
  by pat_completeness auto
termination
  by (relation "measure (\<lambda>(path, start, i, s). nat (i + 1))") auto

declare scan_loop.simps [simp del]

definition no_ext :: "scan \<Rightarrow> bool" where
  \<comment> \<open>the test under which both functions report an empty extension\<close>
  "no_ext s \<longleftrightarrow>
     startDot s = -1 \<or> preDotState s = 0 \<or>
     (preDotState s = 1 \<and> startDot s = endIdx s - 1 \<and> startDot s = startPart s + 1)"

definition extname :: "string \<Rightarrow> string" where
  "extname path =
     (let s = scan_loop path 0 (int (length path) - 1) scan_init in
      if endIdx s = -1 \<or> no_ext s then [] else slice path (startDot s) (endIdx s))"

definition parse_name :: "string \<Rightarrow> string" where
  \<comment> \<open>the \<^verbatim>\<open>name\<close> field of \<^verbatim>\<open>path.parse(path)\<close>\<close>
  "parse_name path =
     (if path = [] then []
      else
        let isAbsolute = (hd path = CHR ''/'');
            s = scan_loop path (if isAbsolute then 1 else 0) (int (length path) - 1) scan_init in
        if endIdx s = -1 then []
        else
          let start = (if startPart s = 0 \<and> isAbsolute then 1 else startPart s) in
          if no_ext s then slice path start (endIdx s)
          else slice path start (startDot s))"

fun split_slash :: "string \<Rightarrow> string list" where
  \<comment> \<open>the segments between the separators; a path without separator is one segment\<close>
  "split_slash [] = [[]]"
| "split_slash (c # cs) =
     (if c = CHR ''/'' then [] # split_slash cs
      else (case split_slash cs of seg # segs \<Rightarrow> (c # seg) # segs | [] \<Rightarrow> [[c]]))"

fun join_slash :: "string list \<Rightarrow> string" where
  "join_slash [] = []"
| "join_slash [seg] = seg"
| "join_slash (seg # segs) = seg @ CHR ''/'' # join_slash segs"

definition norm_step :: "bool \<Rightarrow> string list \<Rightarrow> string \<Rightarrow> string list" where
  \<comment> \<open>one segment of \<^verbatim>\<open>normalizeString\<close>; \<open>res\<close> holds the segments kept so far\<close>
  "norm_step allowAboveRoot res seg =
     (if seg = [] \<or> seg = ''.'' then res
      else if seg = ''..'' then
        (if res \<noteq> [] \<and> last res \<noteq> ''..'' then butlast res
         else if allowAboveRoot then res @ [''..'']
         else res)
      else res @ [seg])"

definition normalizeString :: "string \<Rightarrow> bool \<Rightarrow> string" where
  "normalizeString path allowAboveRoot =
     join_slash (foldl (norm_step allowAboveRoot) [] (split_slash path))"

definition normalize :: "string \<Rightarrow> string" where
  "normalize path =
     (if path = [] then ''.''
      else
        let isAbsolute = (hd path = CHR ''/'');
            trailingSeparator = (last path = CHR ''/'');
            p = normalizeString path (\<not> isAbsolute) in
        if p = [] then (if isAbsolute then ''/'' else if trailingSeparator then ''./'' else ''.'')
        else
          let p' = (if trailingSeparator then p @ ''/'' else p) in
          if isAbsolute then CHR ''/'' # p' else p')"

definition absolute :: "string \<Rightarrow> bool" where
  \<comment> \<open>\<^verbatim>\<open>path.isAbsolute\<close>\<close>
  "absolute p \<longleftrightarrow> p \<noteq> [] \<and> hd p = CHR ''/''"

definition path_join :: "string \<Rightarrow> string \<Rightarrow> string" where
  \<comment> \<open>\<^verbatim>\<open>path.join(a, b)\<close>: the non-empty arguments joined by a separator, then normalised\<close>
  "path_join a b =
     (let joined = (if a = [] then b else if b = [] then a else a @ CHR ''/'' # b) in
      if joined = [] then ''.'' else normalize joined)"

section \<open>JSON values and object literals\<close>

text \<open>
  A value as \<^verbatim>\<open>JSON.parse\<close> and \<^verbatim>\<open>express.json()\<close> deliver it. An object is the list
  of its own properties in creation order (the engine enumerates integer-like keys first;
  the properties read below are looked up by key). Numbers are integers here: no
  claim looks at a number. \<^verbatim>\<open>JSON.parse\<close>, \<^verbatim>\<open>JSON.stringify\<close> and the numeric coercion
  of the \<^verbatim>\<open>-\<close> operator belong to the engine and are parameters of the model, as is the
  directory of the running module (\<^verbatim>\<open>__dirname\<close>).
\<close>

datatype json =
    JNull
  | JBool bool
  | JNum int
  | JStr string
  | JArr "json list"
  | JObj "(string \<times> json) list"

record platform =
  dirname :: string
  JSON_stringify :: "json \<Rightarrow> string"
  JSON_parse :: "string \<Rightarrow> json option" \<comment> \<open>\<open>None\<close>: a \<^verbatim>\<open>SyntaxError\<close> is thrown\<close>
  ToNumber :: "json \<Rightarrow> int option" \<comment> \<open>\<open>None\<close>: \<^verbatim>\<open>NaN\<close>\<close>

definition set_prop :: "string \<Rightarrow> json \<Rightarrow> (string \<times> json) list \<Rightarrow> (string \<times> json) list" where
  \<comment> \<open>defining a property: an existing key keeps its place and takes the new value\<close>
  "set_prop k v obj = AList.update k v obj"

fun digits :: "nat \<Rightarrow> string" where
  "digits n =
     (if n < 10 then [char_of (48 + n)] else digits (n div 10) @ [char_of (48 + n mod 10)])"

declare digits.simps [simp del]

fun own_props :: "json \<Rightarrow> (string \<times> json) list" where
  \<comment> \<open>the own enumerable properties that \<^verbatim>\<open>...value\<close> copies into an object literal\<close>
  "own_props (JObj fs) = fs"
| "own_props (JArr xs) = zip (map digits [0..<length xs]) xs"
| "own_props (JStr cs) = zip (map digits [0..<length cs]) (map (\<lambda>c. JStr [c]) cs)"
| "own_props _ = []"

definition spread :: "(string \<times> json) list \<Rightarrow> json \<Rightarrow> (string \<times> json) list" where
  "spread obj v = foldl (\<lambda>acc (k, x). set_prop k x acc) obj (own_props v)"

definition get_prop :: "json \<Rightarrow> string \<Rightarrow> json option" where
  \<comment> \<open>\<^verbatim>\<open>v[k]\<close> for a key no prototype defines; \<open>None\<close> is \<^verbatim>\<open>undefined\<close>\<close>
  "get_prop v k = (case v of JObj fs \<Rightarrow> map_of fs k | _ \<Rightarrow> None)"

section \<open>The file system\<close>

text \<open>
  The disk is a list of the existing paths, each a directory or a regular file with its
  bytes. Every path handed to \<^verbatim>\<open>fs\<close> by the service comes out of \<^verbatim>\<open>path.join\<close>, so
  the keys are normalised absolute paths; the root directory is not listed and always
  exists. The order of the list is the order in which \<^verbatim>\<open>readdir\<close> reports entries; the
  operating system chooses where a new entry appears in it, which is the \<open>slot\<close> argument
  of a write. No path on a disk holds a NUL character: \<^verbatim>\<open>fs\<close> refuses to create one.
  Failures of the device itself (full disk, permissions, limits on the length of a name)
  are outside the model.
\<close>

datatype node = Dir | File string

type_synonym filesystem = "(string \<times> node) list"

datatype errno = ENOENT | ENOTDIR | EISDIR | InvalidArg | SyntaxError | TypeError

definition existsSync :: "filesystem \<Rightarrow> string \<Rightarrow> bool" where
  "existsSync fs p \<longleftrightarrow> p = ''/'' \<or> map_of fs p \<noteq> None"

definition is_dir :: "filesystem \<Rightarrow> string \<Rightarrow> bool" where
  "is_dir fs p \<longleftrightarrow> p = ''/'' \<or> map_of fs p = Some Dir"

definition is_file :: "filesystem \<Rightarrow> string \<Rightarrow> bool" where
  "is_file fs p \<longleftrightarrow> (case map_of fs p of Some (File c) \<Rightarrow> True | _ \<Rightarrow> False)"

definition parent_dir :: "string \<Rightarrow> string" where
  \<comment> \<open>the directory that holds the entry \<open>p\<close>\<close>
  "parent_dir p =
     (let d = join_slash (butlast (split_slash p)) in
      if d = [] \<and> p \<noteq> [] \<and> hd p = CHR ''/'' then ''/'' else d)"

definition ancestors :: "string \<Rightarrow> string list" where
  \<comment> \<open>the path and the directories above it, the outermost first, without the root\<close>
  "ancestors p =
     filter (\<lambda>q. q \<noteq> [] \<and> q \<noteq> ''/'') (map join_slash (prefixes (split_slash p)))"

definition mkdirSync :: "string \<Rightarrow> filesystem \<Rightarrow> errno + filesystem" where
  \<comment> \<open>\<^verbatim>\<open>fs.mkdirSync(p, { recursive: true })\<close>\<close>
  "mkdirSync p fs =
     (if \<exists>q \<in> set (ancestors p). is_file fs q then Inl ENOTDIR
      else Inr (fs @ map (\<lambda>q. (q, Dir)) (filter (\<lambda>q. map_of fs q = None) (ancestors p))))"

definition entry_name :: "string \<Rightarrow> string \<Rightarrow> string option" where
  \<comment> \<open>the name under which directory \<open>d\<close> lists the path \<open>p\<close>, if \<open>p\<close> lies directly in \<open>d\<close>\<close>
  "entry_name d p = (if p \<noteq> ''/'' \<and> parent_dir p = d then Some (last (split_slash p)) else None)"

definition readdirSync :: "string \<Rightarrow> filesystem \<Rightarrow> errno + string list" where
  "readdirSync d fs =
     (if is_dir fs d then Inr (List.map_filter (\<lambda>(p, n). entry_name d p) fs)
      else if existsSync fs d then Inl ENOTDIR
      else Inl ENOENT)"

definition readFileSync :: "string \<Rightarrow> filesystem \<Rightarrow> errno + string" where
  "readFileSync p fs =
     (case map_of fs p of
        Some (File c) \<Rightarrow> Inr c
      | Some Dir \<Rightarrow> Inl EISDIR
      | None \<Rightarrow> if p = ''/'' then Inl EISDIR else Inl ENOENT)"

definition writeFileSync :: "nat \<Rightarrow> string \<Rightarrow> string \<Rightarrow> filesystem \<Rightarrow> errno + filesystem" where
  \<comment> \<open>an existing file is overwritten in place; a new one is listed at position \<open>slot\<close>\<close>
  "writeFileSync slot p c fs =
     (if CHR 0x00 \<in> set p then Inl InvalidArg
      else if is_dir fs p then Inl EISDIR
      else if \<not> existsSync fs (parent_dir p) then Inl ENOENT
      else if \<not> is_dir fs (parent_dir p) then Inl ENOTDIR
      else if map_of fs p = None then Inr (take slot fs @ (p, File c) # drop slot fs)
      else Inr (AList.update p (File c) fs))"

section \<open>The service\<close>

text \<open>
  A handler takes the platform, the inputs of the request, the values the environment
  produces during the call (the token of \<^verbatim>\<open>uuidv4()\<close>, the string of
  \<^verbatim>\<open>new Date().toISOString()\<close>, the listing slot of a new file) and the disk, and returns
  the response with the disk it leaves. A response is the status with the payload of a
  success; the message objects of the error responses are not modelled. \<open>Thrown\<close> is an
  exception that no handler catches: the request gets no response.
\<close>

datatype 'a response = Reply nat 'a | Failed nat | Thrown errno

definition fileDir :: "platform \<Rightarrow> string" where
  "fileDir pf = path_join (dirname pf) ''../file''"

definition canvasDir :: "platform \<Rightarrow> string" where
  "canvasDir pf = path_join (dirname pf) ''../canvas''"

subsection \<open>Blob store\<close>

definition storage_filename :: "string \<Rightarrow> string \<Rightarrow> string" where
  \<comment> \<open>the \<^verbatim>\<open>filename\<close> callback of \<^verbatim>\<open>multer.diskStorage\<close>\<close>
  "storage_filename fileId originalname = (let extension = extname originalname in fileId @ extension)"

definition upload ::
  "platform \<Rightarrow> string \<Rightarrow> nat \<Rightarrow> (string \<times> string) option \<Rightarrow> filesystem \<Rightarrow> string response \<times> filesystem" where
  \<comment> \<open>\<^verbatim>\<open>POST /upload\<close>: the request carries the original name and the bytes of a file, or no
      file; multer writes the bytes to \<^verbatim>\<open>path.join(destination, filename)\<close> before the handler
      runs, and a failed write ends in the framework's error response\<close>
  "upload pf uuid slot file fs =
     (case file of
        None \<Rightarrow> (Failed 400, fs)
      | Some (originalname, content) \<Rightarrow>
          let filename = storage_filename uuid originalname in
          (case writeFileSync slot (path_join (fileDir pf) filename) content fs of
             Inl e \<Rightarrow> (Failed 500, fs)
           | Inr fs' \<Rightarrow> (Reply 200 (parse_name filename), fs')))"

definition containsDotFile :: "string list \<Rightarrow> bool" where
  \<comment> \<open>a part of the path that is longer than one character and begins with a dot\<close>
  "containsDotFile parts \<longleftrightarrow> (\<exists>part \<in> set parts. 1 < length part \<and> hd part = CHR ''.'')"

definition up_path :: "string \<Rightarrow> bool" where
  \<comment> \<open>\<^verbatim>\<open>UP_PATH_REGEXP\<close>: a part between separators, \<^verbatim>\<open>/\<close> or the backslash, that is \<^verbatim>\<open>..\<close>\<close>
  "up_path p \<longleftrightarrow>
     ''..'' \<in> set (split_slash (map (\<lambda>c. if c = CHR 0x5C then CHR ''/'' else c) p))"

text \<open>
  \<^verbatim>\<open>res.sendFile(path)\<close> with no options, on a request without range or cache headers. It
  throws when the path is not absolute. Then the \<^verbatim>\<open>send\<close> library refuses a NUL character
  (400) and a \<^verbatim>\<open>..\<close> part (403), ignores every path with a hidden part, that is a part of
  the normalised path that begins with a dot (the default \<^verbatim>\<open>dotfiles: 'ignore'\<close>, 404),
  transmits a regular file, and answers 404 for a directory or a missing file.
\<close>

definition sendFile :: "string \<Rightarrow> filesystem \<Rightarrow> string response" where
  "sendFile p fs =
     (if \<not> absolute p then Thrown TypeError
      else if CHR 0x00 \<in> set p then Failed 400
      else if up_path p then Failed 403
      else if containsDotFile (split_slash (normalize p)) then Failed 404
      else (case readFileSync p fs of Inr c \<Rightarrow> Reply 200 c | Inl e \<Rightarrow> Failed 404))"

definition get_file :: "platform \<Rightarrow> string \<Rightarrow> filesystem \<Rightarrow> string response" where
  \<comment> \<open>\<^verbatim>\<open>GET /file/:fileId\<close>\<close>
  "get_file pf fileId fs =
     (case readdirSync (fileDir pf) fs of
        Inl err \<Rightarrow> Failed 500
      | Inr files \<Rightarrow>
          (case find (\<lambda>file. prefix fileId file) files of
             None \<Rightarrow> Failed 404
           | Some targetFile \<Rightarrow> sendFile (path_join (fileDir pf) targetFile) fs))"

subsection \<open>Document store\<close>

definition newCanvas :: "string \<Rightarrow> string \<Rightarrow> json \<Rightarrow> json" where
  \<comment> \<open>\<^verbatim>\<open>{ id: canvasId, ...canvasData, createAt: new Date().toISOString() }\<close>\<close>
  "newCanvas canvasId now canvasData =
     JObj (set_prop ''createAt'' (JStr now) (spread (set_prop ''id'' (JStr canvasId) []) canvasData))"

definition create ::
  "platform \<Rightarrow> string \<Rightarrow> string \<Rightarrow> nat \<Rightarrow> json \<Rightarrow> filesystem \<Rightarrow> json response \<times> filesystem" where
  \<comment> \<open>\<^verbatim>\<open>POST /canvas\<close>\<close>
  "create pf canvasId now slot canvasData fs =
     (let doc = newCanvas canvasId now canvasData;
          filePath = path_join (canvasDir pf) (canvasId @ ''.json'') in
      case writeFileSync slot filePath (JSON_stringify pf doc) fs of
        Inl e \<Rightarrow> (Failed 500, fs)
      | Inr fs' \<Rightarrow> (Reply 201 doc, fs'))"

definition read_canvas :: "platform \<Rightarrow> string \<Rightarrow> filesystem \<Rightarrow> errno + json" where
  \<comment> \<open>\<^verbatim>\<open>JSON.parse(fs.readFileSync(filePath, 'utf-8'))\<close>\<close>
  "read_canvas pf filePath fs =
     (case readFileSync filePath fs of
        Inl e \<Rightarrow> Inl e
      | Inr fileData \<Rightarrow> (case JSON_parse pf fileData of None \<Rightarrow> Inl SyntaxError | Some v \<Rightarrow> Inr v))"

fun map_throwing :: "('a \<Rightarrow> errno + 'b) \<Rightarrow> 'a list \<Rightarrow> errno + 'b list" where
  \<comment> \<open>\<^verbatim>\<open>xs.map(f)\<close> where \<open>f\<close> may throw: the first exception ends the whole map\<close>
  "map_throwing f [] = Inr []"
| "map_throwing f (x # xs) =
     (case f x of
        Inl e \<Rightarrow> Inl e
      | Inr y \<Rightarrow> (case map_throwing f xs of Inl e \<Rightarrow> Inl e | Inr ys \<Rightarrow> Inr (y # ys)))"

definition createDate :: "json \<Rightarrow> errno + json option" where
  \<comment> \<open>\<^verbatim>\<open>a.createDate\<close>: a \<^verbatim>\<open>TypeError\<close> on \<^verbatim>\<open>null\<close>, \<^verbatim>\<open>undefined\<close> where no such property is\<close>
  "createDate a = (case a of JNull \<Rightarrow> Inl TypeError | _ \<Rightarrow> Inr (get_prop a ''createDate''))"

definition js_minus :: "platform \<Rightarrow> json option \<Rightarrow> json option \<Rightarrow> int option" where
  \<comment> \<open>\<^verbatim>\<open>x - y\<close>: \<^verbatim>\<open>NaN\<close> as soon as an operand is \<^verbatim>\<open>undefined\<close> or coerces to \<^verbatim>\<open>NaN\<close>\<close>
  "js_minus pf x y =
     (case (x, y) of
        (Some a, Some b) \<Rightarrow>
          (case (ToNumber pf a, ToNumber pf b) of (Some m, Some n) \<Rightarrow> Some (m - n) | _ \<Rightarrow> None)
      | _ \<Rightarrow> None)"

definition by_createDate :: "platform \<Rightarrow> json \<Rightarrow> json \<Rightarrow> errno + int option" where
  \<comment> \<open>the comparator \<^verbatim>\<open>(a, b) => b.createDate - a.createDate\<close>\<close>
  "by_createDate pf a b =
     (case createDate b of
        Inl e \<Rightarrow> Inl e
      | Inr x \<Rightarrow> (case createDate a of Inl e \<Rightarrow> Inl e | Inr y \<Rightarrow> Inr (js_minus pf x y)))"

text \<open>
  \<^verbatim>\<open>Array.prototype.sort\<close> is stable, and a comparator result of \<^verbatim>\<open>NaN\<close> counts as
  \<open>0\<close>. It is modelled by a stable insertion sort: \<open>x\<close> goes before the first element it
  does not have to follow. An exception of the comparator ends the sort.
\<close>

fun sort_insert :: "('a \<Rightarrow> 'a \<Rightarrow> errno + int option) \<Rightarrow> 'a \<Rightarrow> 'a list \<Rightarrow> errno + 'a list" where
  "sort_insert cmp x [] = Inr [x]"
| "sort_insert cmp x (y # ys) =
     (case cmp x y of
        Inl e \<Rightarrow> Inl e
      | Inr v \<Rightarrow>
          if (case v of None \<Rightarrow> True | Some n \<Rightarrow> n \<le> 0) then Inr (x # y # ys)
          else (case sort_insert cmp x ys of Inl e \<Rightarrow> Inl e | Inr zs \<Rightarrow> Inr (y # zs)))"

fun js_sort :: "('a \<Rightarrow> 'a \<Rightarrow> errno + int option) \<Rightarrow> 'a list \<Rightarrow> errno + 'a list" where
  "js_sort cmp [] = Inr []"
| "js_sort cmp (x # xs) =
     (case js_sort cmp xs of Inl e \<Rightarrow> Inl e | Inr ys \<Rightarrow> sort_insert cmp x ys)"

definition listAll :: "platform \<Rightarrow> filesystem \<Rightarrow> json list response \<times> filesystem" where
  \<comment> \<open>\<^verbatim>\<open>GET /canvas\<close>\<close>
  "listAll pf fs =
     (if \<not> existsSync fs (canvasDir pf) then
        (case mkdirSync (canvasDir pf) fs of
           Inl e \<Rightarrow> (Failed 500, fs)
         | Inr fs' \<Rightarrow> (Reply 200 [], fs'))
      else
        (case readdirSync (canvasDir pf) fs of
           Inl e \<Rightarrow> (Failed 500, fs)
         | Inr names \<Rightarrow>
             let files = filter (\<lambda>file. suffix ''.json'' file) names in
             (case map_throwing (\<lambda>file. read_canvas pf (path_join (canvasDir pf) file) fs) files of
                Inl e \<Rightarrow> (Failed 500, fs)
              | Inr canvases \<Rightarrow>
                  (case js_sort (by_createDate pf) canvases of
                     Inl e \<Rightarrow> (Failed 500, fs)
                   | Inr canvases' \<Rightarrow> (Reply 200 canvases', fs)))))"

definition getById :: "platform \<Rightarrow> string \<Rightarrow> filesystem \<Rightarrow> json response" where
  \<comment> \<open>\<^verbatim>\<open>GET /canvas/:id\<close>; the framework hands over the decoded path parameter, which can
      hold a \<^verbatim>\<open>/\<close> sent as \<^verbatim>\<open>%2F\<close>\<close>
  "getById pf ident fs =
     (let filePath = path_join (canvasDir pf) (ident @ ''.json'') in
      if \<not> existsSync fs filePath then Failed 404
      else (case read_canvas pf filePath fs of Inl e \<Rightarrow> Failed 500 | Inr v \<Rightarrow> Reply 200 v))"

section \<open>Vocabulary for the properties\<close>

text \<open>
  A normalised path is a stack of segments: first the \<open>..\<close> that climb above the
  starting point (relative paths only), then ordinary names. \<open>render\<close> writes such a
  stack back as a path.
\<close>

definition regular :: "string \<Rightarrow> bool" where
  "regular seg \<longleftrightarrow> seg \<noteq> [] \<and> seg \<noteq> ''.'' \<and> seg \<noteq> ''..'' \<and> CHR ''/'' \<notin> set seg"

definition stack_ok :: "bool \<Rightarrow> string list \<Rightarrow> bool" where
  "stack_ok allow res \<longleftrightarrow>
     (\<exists>k regs. res = replicate k ''..'' @ regs \<and> (\<forall>s \<in> set regs. regular s) \<and> (0 < k \<longrightarrow> allow))"

definition render :: "bool \<Rightarrow> string list \<Rightarrow> string" where
  "render isAbs segs = (if isAbs then CHR ''/'' # join_slash segs else join_slash segs)"

definition base_stack :: "string \<Rightarrow> string list" where
  \<comment> \<open>the directory above \<^verbatim>\<open>__dirname\<close>, in which the two store directories lie\<close>
  "base_stack dn = foldl (norm_step (\<not> absolute dn)) [] (split_slash dn @ [''..''])"

text \<open>
  A stand-in engine for concrete runs: it serialises and parses by looking a table up
  (anything outside the table is not JSON to it) and coerces every value to \<^verbatim>\<open>NaN\<close>.
\<close>

definition engine_stub :: "string \<Rightarrow> (json \<times> string) list \<Rightarrow> platform" where
  "engine_stub dn tbl =
     \<lparr>dirname = dn,
      JSON_stringify = (\<lambda>v. case map_of tbl v of Some s \<Rightarrow> s | None \<Rightarrow> ''null''),
      JSON_parse = (\<lambda>s. map_of (map (\<lambda>(v, s). (s, v)) tbl) s),
      ToNumber = (\<lambda>v. None)\<rparr>"

text \<open>
  The first assignment of the scanning loop to \<^verbatim>\<open>end\<close>, made at the first character that
  is no separator.
\<close>

definition mark_end :: "int \<Rightarrow> scan \<Rightarrow> scan" where
  "mark_end e s = (if endIdx s = -1 then s\<lparr>matchedSlash := False, endIdx := e\<rparr> else s)"

text \<open>
  The extension as the specification words it: the substring from the last dot of the
  name, the dot included, and nothing when the name has no dot.
\<close>

definition last_dot_suffix :: "string \<Rightarrow> string" where
  "last_dot_suffix name =
     (if CHR ''.'' \<in> set name then CHR ''.'' # rev (takeWhile (\<lambda>c. c \<noteq> CHR ''.'') (rev name)) else [])"

text \<open>
  The last portion of a path: what follows its last separator, trailing separators
  ignored; the whole name when it has no separator.
\<close>

definition last_portion :: "string \<Rightarrow> string" where
  "last_portion name =
     rev (takeWhile (\<lambda>c. c \<noteq> CHR ''/'') (dropWhile (\<lambda>c. c = CHR ''/'') (rev name)))"



text \<open>Sample data for the concrete runs.\<close>

definition sample_disk :: filesystem where
  "sample_disk = [(''/srv'', Dir), (''/srv/app'', Dir), (''/srv/app/dist'', Dir),
     (''/srv/app/file'', Dir), (''/srv/app/canvas'', Dir)]"


definition token1 :: string where "token1 = ''0b9f6c1e-6a55-4f0c-9d2e-3c1a7e5b8d41''"

definition token2 :: string where "token2 = ''c4d1a0f2-93be-4b7a-8e15-5f60d2a9e773''"

definition token3 :: string where "token3 = ''7e2a9b34-1c8d-4e6f-a0b5-92d4c3f1e688''"

definition day1 :: string where "day1 = ''2024-05-01T10:00:00.000Z''"

definition day2 :: string where "day2 = ''2024-05-02T10:00:00.000Z''"

definition day3 :: string where "day3 = ''2024-05-03T10:00:00.000Z''"

definition sketch :: "string \<Rightarrow> json" where
  "sketch title = JObj [(''title'', JStr title)]"

definition listed_docs :: "json list" where
  "listed_docs =
     [newCanvas token1 day1 (sketch ''first''), newCanvas token2 day2 (sketch ''second''),
      newCanvas token3 day3 (sketch ''third'')]"

definition listing_engine :: platform where
  "listing_engine =
     engine_stub ''/srv/app/dist''
       (zip listed_docs [''text of the first'', ''text of the second'', ''text of the third''])"

definition three_created :: filesystem where
  \<comment> \<open>three documents created on three consecutive days, each listed after the earlier ones\<close>
  "three_created =
     snd (create listing_engine token3 day3 7 (sketch ''third'')
       (snd (create listing_engine token2 day2 6 (sketch ''second'')
         (snd (create listing_engine token1 day1 5 (sketch ''first'') sample_disk)))))"

definition caller_doc :: json where
  \<comment> \<open>a request body that brings an \<^verbatim>\<open>id\<close> of its own\<close>
  "caller_doc = JObj [(''id'', JStr ''mine''), (''title'', JStr ''sketch'')]"

definition caller_engine :: platform where
  "caller_engine =
     engine_stub ''/srv/app/dist'' [(newCanvas token1 day1 caller_doc, ''text of the sketch'')]"

section \<open>Paths: splitting, joining, normalising\<close>

lemma split_slash_nonempty: "split_slash p \<noteq> []"
  by (induction p) (auto split: list.splits)

lemma join_split: "join_slash (split_slash p) = p"
proof (induction p)
  case Nil show ?case by simp
next
  case (Cons c cs)
  obtain seg segs where s: "split_slash cs = seg # segs"
    using split_slash_nonempty [of cs] by (cases "split_slash cs") auto
  with Cons show ?case by (cases segs) auto
qed

lemma split_no_slash: "CHR ''/'' \<notin> set s \<Longrightarrow> split_slash s = [s]"
  by (induction s) auto

lemma split_append: "split_slash (a @ CHR ''/'' # b) = split_slash a @ split_slash b"
  by (induction a) (auto split: list.splits simp: split_slash_nonempty)

lemma split_segments_no_slash: "seg \<in> set (split_slash p) \<Longrightarrow> CHR ''/'' \<notin> set seg"
  by (induction p arbitrary: seg) (auto split: list.splits if_splits)

lemma join_snoc: "segs \<noteq> [] \<Longrightarrow> join_slash (segs @ [seg]) = join_slash segs @ CHR ''/'' # seg"
  by (induction segs rule: join_slash.induct) auto

lemma split_join: "segs \<noteq> [] \<Longrightarrow> \<forall>seg \<in> set segs. CHR ''/'' \<notin> set seg \<Longrightarrow> split_slash (join_slash segs) = segs"
  by (induction segs rule: join_slash.induct) (auto simp: split_no_slash split_append)

lemma stack_ok_Nil: "stack_ok allow []"
  unfolding stack_ok_def by (rule exI [of _ 0]) simp

lemma stack_ok_snoc: "stack_ok allow res \<Longrightarrow> regular seg \<Longrightarrow> stack_ok allow (res @ [seg])"
  unfolding stack_ok_def
  apply (elim exE conjE)
  subgoal for k regs by (rule exI [of _ k], rule exI [of _ "regs @ [seg]"]) simp
  done

lemma stack_ok_butlast: "stack_ok allow res \<Longrightarrow> stack_ok allow (butlast res)"
  unfolding stack_ok_def
proof (elim exE conjE)
  fix k regs
  assume r: "res = replicate k ''..'' @ regs" and a: "\<forall>s\<in>set regs. regular s" and b: "0 < k \<longrightarrow> allow"
  show "\<exists>k regs. butlast res = replicate k ''..'' @ regs \<and> (\<forall>s\<in>set regs. regular s) \<and> (0 < k \<longrightarrow> allow)"
  proof (cases "regs = []")
    case True
    have bl: "butlast (replicate k ''..'') = replicate (k - 1) ''..''"
    proof (cases k)
      case 0 then show ?thesis by simp
    next
      case (Suc n)
      have "replicate (Suc n) ''..'' = replicate n ''..'' @ [''..'']"
        by (simp add: replicate_append_same)
      then have "butlast (replicate (Suc n) ''..'') = replicate n ''..''"
        by (simp only: butlast_snoc)
      with Suc show ?thesis by simp
    qed
    from r True bl have "butlast res = replicate (k - 1) ''..'' @ []" by simp
    with b show ?thesis by (intro exI [of _ "k - 1"] exI [of _ "[]"]) auto
  next
    case False
    with r have "butlast res = replicate k ''..'' @ butlast regs" by (simp add: butlast_append)
    with a b show ?thesis by (intro exI [of _ k] exI [of _ "butlast regs"]) (auto dest: in_set_butlastD)
  qed
qed

lemma stack_ok_dotdot:
  assumes "stack_ok allow res" "res = [] \<or> last res = ''..''" "allow"
  shows "stack_ok allow (res @ [''..''])"
proof -
  from assms(1) obtain k regs where r: "res = replicate k ''..'' @ regs" and a: "\<forall>s\<in>set regs. regular s"
    unfolding stack_ok_def by blast
  have "regs = []"
  proof (rule ccontr)
    assume n: "regs \<noteq> []"
    with r have "last res = last regs" by simp
    moreover from n a have "regular (last regs)" by simp
    ultimately show False using assms(2) r n by (auto simp: regular_def)
  qed
  with r have "res @ [''..''] = replicate (Suc k) ''..'' @ []" by (simp add: replicate_append_same)
  with assms(3) show ?thesis unfolding stack_ok_def by (intro exI [of _ "Suc k"] exI [of _ "[]"]) simp
qed

lemma stack_ok_step:
  assumes ok: "stack_ok allow res" and ns: "CHR ''/'' \<notin> set seg"
  shows "stack_ok allow (norm_step allow res seg)"
proof -
  consider (skip) "seg = [] \<or> seg = ''.''"
    | (pop) "seg = ''..''" "res \<noteq> [] \<and> last res \<noteq> ''..''"
    | (up) "seg = ''..''" "res = [] \<or> last res = ''..''" "allow"
    | (stay) "seg = ''..''" "res = [] \<or> last res = ''..''" "\<not> allow"
    | (push) "regular seg"
    using ns unfolding regular_def by blast
  then show ?thesis
  proof cases
    case skip
    then show ?thesis using ok by (auto simp: norm_step_def)
  next
    case pop
    then have "norm_step allow res seg = butlast res" by (simp add: norm_step_def)
    then show ?thesis using ok by (simp add: stack_ok_butlast)
  next
    case up
    then have "norm_step allow res seg = res @ [''..'']" by (auto simp: norm_step_def)
    then show ?thesis using stack_ok_dotdot [OF ok up(2) up(3)] by simp
  next
    case stay
    then have "norm_step allow res seg = res" by (auto simp: norm_step_def)
    then show ?thesis using ok by simp
  next
    case push
    then have "norm_step allow res seg = res @ [seg]" by (auto simp: norm_step_def regular_def)
    then show ?thesis using stack_ok_snoc [OF ok push] by simp
  qed
qed

lemma stack_ok_foldl:
  "stack_ok allow res \<Longrightarrow> \<forall>seg \<in> set segs. CHR ''/'' \<notin> set seg \<Longrightarrow> stack_ok allow (foldl (norm_step allow) res segs)"
  by (induction segs arbitrary: res) (auto intro: stack_ok_step)

lemma foldl_regular: "\<forall>s \<in> set regs. regular s \<Longrightarrow> foldl (norm_step allow) acc regs = acc @ regs"
  by (induction regs arbitrary: acc) (auto simp: norm_step_def regular_def)

lemma foldl_dotdots: "allow \<Longrightarrow> foldl (norm_step allow) (replicate j ''..'') (replicate k ''..'') = replicate (j + k) ''..''"
proof (induction k arbitrary: j)
  case 0 show ?case by simp
next
  case (Suc k)
  have st: "norm_step allow (replicate j ''..'') ''..'' = replicate (Suc j) ''..''"
    using Suc.prems by (cases j) (simp_all add: norm_step_def replicate_append_same)
  have "foldl (norm_step allow) (replicate j ''..'') (replicate (Suc k) ''..'')
      = foldl (norm_step allow) (norm_step allow (replicate j ''..'') ''..'') (replicate k ''..'')"
    by simp
  also have "\<dots> = foldl (norm_step allow) (replicate (Suc j) ''..'') (replicate k ''..'')"
    by (simp only: st)
  also have "\<dots> = replicate (Suc j + k) ''..''"
    by (rule Suc.IH [OF Suc.prems])
  finally show ?case by simp
qed

lemma stack_ok_fixed: "stack_ok allow res \<Longrightarrow> foldl (norm_step allow) [] res = res"
proof -
  assume "stack_ok allow res"
  then obtain k regs where r: "res = replicate k ''..'' @ regs" and a: "\<forall>s\<in>set regs. regular s" and b: "0 < k \<longrightarrow> allow"
    unfolding stack_ok_def by blast
  have "foldl (norm_step allow) [] (replicate k ''..'') = replicate k ''..''"
  proof (cases k)
    case 0 then show ?thesis by simp
  next
    case (Suc n)
    with b have allow by simp
    from foldl_dotdots [OF this, of 0 k] show ?thesis by simp
  qed
  with r a show ?thesis by (simp add: foldl_regular)
qed

lemma stack_ok_no_slash:
  assumes "stack_ok allow res" "seg \<in> set res"
  shows "CHR ''/'' \<notin> set seg \<and> seg \<noteq> []"
proof -
  from assms(1) obtain k regs where r: "res = replicate k ''..'' @ regs" and a: "\<forall>s\<in>set regs. regular s"
    unfolding stack_ok_def by blast
  from assms(2) r have "seg = ''..'' \<or> seg \<in> set regs" by (cases "k = 0") simp_all
  then show ?thesis
  proof
    assume "seg = ''..''" then show ?thesis by simp
  next
    assume "seg \<in> set regs" with a show ?thesis by (simp add: regular_def)
  qed
qed

lemma join_slash_eq_Nil: "join_slash segs = [] \<longleftrightarrow> segs = [] \<or> segs = [[]]"
  by (induction segs rule: join_slash.induct) auto

lemma hd_join_slash: "segs \<noteq> [] \<Longrightarrow> hd segs \<noteq> [] \<Longrightarrow> hd (join_slash segs) = hd (hd segs)"
  by (induction segs rule: join_slash.induct) auto

lemma last_join_slash: "segs \<noteq> [] \<Longrightarrow> last segs \<noteq> [] \<Longrightarrow> last (join_slash segs) = last (last segs)"
  by (induction segs rule: join_slash.induct) (auto simp: join_slash_eq_Nil)

lemma split_render:
  assumes "stack_ok (\<not> isAbs) segs" "segs \<noteq> []"
  shows "split_slash (render isAbs segs) = (if isAbs then [] # segs else segs)"
  using assms by (auto simp: render_def split_join stack_ok_no_slash)

lemma render_absolute:
  assumes "stack_ok (\<not> isAbs) segs" "segs \<noteq> []"
  shows "absolute (render isAbs segs) = isAbs"
proof (cases isAbs)
  case True then show ?thesis by (simp add: render_def absolute_def)
next
  case False
  from assms have h: "hd segs \<in> set segs" by simp
  with assms(1) have "hd segs \<noteq> []" "CHR ''/'' \<notin> set (hd segs)"
    using stack_ok_no_slash by blast+
  then have "hd (hd segs) \<noteq> CHR ''/''" by (cases "hd segs") auto
  with False assms(2) \<open>hd segs \<noteq> []\<close> show ?thesis
    by (simp add: render_def absolute_def hd_join_slash join_slash_eq_Nil)
qed

lemma norm_step_regular: "regular seg \<Longrightarrow> norm_step allow res seg = res @ [seg]"
  by (auto simp: norm_step_def regular_def)

lemma normalize_snoc:
  assumes sp: "split_slash path = pre @ [t]" and t: "regular t"
  shows "normalize path = render (absolute path) (foldl (norm_step (\<not> absolute path)) [] pre @ [t])"
proof -
  let ?F = "foldl (norm_step (\<not> absolute path)) [] pre"
  have ne: "path \<noteq> []"
  proof
    assume "path = []"
    with sp have "pre @ [t] = [[]]" by simp
    then have "t = []" by (cases pre) auto
    with t show False by (simp add: regular_def)
  qed
  then have abs: "(hd path = CHR ''/'') = absolute path" by (simp add: absolute_def)
  have ns: "normalizeString path (\<not> absolute path) = join_slash (?F @ [t])"
    by (simp add: normalizeString_def sp norm_step_regular [OF t])
  have nn: "join_slash (?F @ [t]) \<noteq> []"
    using t by (auto simp: join_slash_eq_Nil regular_def Cons_eq_append_conv)
  have "last path = last (join_slash (split_slash path))" by (simp add: join_split)
  also have "\<dots> = last t" using t by (simp add: sp last_join_slash regular_def)
  finally have "last path = last t" .
  moreover have "last t \<noteq> CHR ''/''" using t last_in_set [of t] unfolding regular_def by metis
  ultimately have lp: "last path \<noteq> CHR ''/''" by simp
  show ?thesis
    using ne nn lp by (simp add: normalize_def abs ns render_def Let_def)
qed

lemma path_join_snoc:
  assumes a: "a \<noteq> []" and sp: "split_slash b = pre @ [t]" and t: "regular t"
  shows "path_join a b = render (absolute a) (foldl (norm_step (\<not> absolute a)) [] (split_slash a @ pre) @ [t])"
proof -
  have b: "b \<noteq> []"
  proof
    assume "b = []"
    with sp have "pre @ [t] = [[]]" by simp
    then have "t = []" by (cases pre) auto
    with t show False by (simp add: regular_def)
  qed
  have abs: "absolute (a @ CHR ''/'' # b) = absolute a" using a by (simp add: absolute_def)
  have "split_slash (a @ CHR ''/'' # b) = (split_slash a @ pre) @ [t]" by (simp add: split_append sp)
  from normalize_snoc [OF this t] a b show ?thesis
    by (simp add: path_join_def abs)
qed

lemma base_stack_ok: "stack_ok (\<not> absolute dn) (base_stack dn)"
  unfolding base_stack_def
  by (rule stack_ok_foldl [OF stack_ok_Nil]) (auto dest: split_segments_no_slash)

lemma dir_shape:
  assumes t: "regular t"
  shows "path_join dn (''../'' @ t) = render (absolute dn) (base_stack dn @ [t])"
proof (cases "dn = []")
  case False
  have sp: "split_slash (''../'' @ t) = [''..''] @ [t]"
    using t by (simp add: split_no_slash regular_def)
  from path_join_snoc [OF False sp t] show ?thesis by (simp add: base_stack_def)
next
  case True
  have sp: "split_slash (''../'' @ t) = [''..''] @ [t]"
    using t by (simp add: split_no_slash regular_def)
  have na: "\<not> absolute (''../'' @ t)" by (simp add: absolute_def)
  from normalize_snoc [OF sp t] True show ?thesis
    by (simp add: path_join_def base_stack_def na absolute_def norm_step_def)
qed

lemma child_path:
  assumes ok: "stack_ok (\<not> isAbs) segs" and ne: "segs \<noteq> []" and n: "regular n"
  shows "path_join (render isAbs segs) n = render isAbs segs @ CHR ''/'' # n"
proof -
  let ?d = "render isAbs segs"
  have d: "?d \<noteq> []"
  proof (cases isAbs)
    case True then show ?thesis by (simp add: render_def)
  next
    case False
    from ne have "hd segs \<in> set segs" by simp
    with ok have "hd segs \<noteq> []" using stack_ok_no_slash by blast
    with ne have "segs \<noteq> [[]]" by auto
    with False ne show ?thesis by (simp add: render_def join_slash_eq_Nil)
  qed
  have sp: "split_slash n = [] @ [n]" using n by (simp add: split_no_slash regular_def)
  have ab: "absolute ?d = isAbs" by (rule render_absolute [OF ok ne])
  have fx: "foldl (norm_step (\<not> isAbs)) [] (split_slash ?d) = segs"
  proof (cases isAbs)
    case True
    with ok ne show ?thesis by (simp add: split_render stack_ok_fixed norm_step_def)
  next
    case False
    with ok ne show ?thesis by (simp add: split_render stack_ok_fixed)
  qed
  from path_join_snoc [OF d sp n] have "path_join ?d n = render isAbs (segs @ [n])"
    by (simp add: ab fx)
  also have "\<dots> = ?d @ CHR ''/'' # n" using ne by (simp add: render_def join_snoc)
  finally show ?thesis .
qed

lemma render_nonempty:
  assumes ok: "stack_ok (\<not> isAbs) segs" and ne: "segs \<noteq> []"
  shows "render isAbs segs \<noteq> []" "render isAbs segs \<noteq> ''/''"
proof -
  from ne have "hd segs \<in> set segs" by simp
  with ok have "hd segs \<noteq> []" using stack_ok_no_slash by blast
  with ne have "segs \<noteq> [[]]" by auto
  with ne have j: "join_slash segs \<noteq> []" by (simp add: join_slash_eq_Nil)
  then show "render isAbs segs \<noteq> []" by (simp add: render_def)
  from j show "render isAbs segs \<noteq> ''/''"
  proof (cases isAbs)
    case True with j show ?thesis by (simp add: render_def)
  next
    case False
    have "absolute (render isAbs segs) = isAbs" by (rule render_absolute [OF ok ne])
    with False show ?thesis by (auto simp: absolute_def)
  qed
qed

lemma child_parts:
  assumes ok: "stack_ok (\<not> isAbs) segs" and ne: "segs \<noteq> []" and n: "regular n"
  shows "parent_dir (render isAbs segs @ CHR ''/'' # n) = render isAbs segs"
    and "last (split_slash (render isAbs segs @ CHR ''/'' # n)) = n"
proof -
  let ?d = "render isAbs segs"
  have sn: "split_slash n = [n]" using n by (simp add: split_no_slash regular_def)
  have sp: "split_slash (?d @ CHR ''/'' # n) = split_slash ?d @ [n]"
    by (simp add: split_append sn)
  show "last (split_slash (?d @ CHR ''/'' # n)) = n" by (simp add: sp)
  have "join_slash (butlast (split_slash (?d @ CHR ''/'' # n))) = ?d"
    by (simp add: sp join_split)
  moreover have "?d \<noteq> []" by (rule render_nonempty [OF ok ne])
  ultimately show "parent_dir (?d @ CHR ''/'' # n) = ?d"
    by (simp add: parent_dir_def)
qed

lemma entry_name_child:
  assumes ok: "stack_ok (\<not> isAbs) segs" and ne: "segs \<noteq> []" and n: "regular n"
  shows "entry_name (render isAbs segs) (render isAbs segs @ CHR ''/'' # n) = Some n"
proof -
  have "render isAbs segs \<noteq> []" by (rule render_nonempty [OF ok ne])
  then have "render isAbs segs @ CHR ''/'' # n \<noteq> ''/''"
    by (simp add: append_eq_Cons_conv)
  with child_parts [OF ok ne n] show ?thesis by (simp add: entry_name_def)
qed

lemma in_map_filter: "y \<in> set (List.map_filter f xs) \<longleftrightarrow> (\<exists>x \<in> set xs. f x = Some y)"
  by (induction xs) (auto split: option.splits)

lemma readdir_lists:
  assumes "is_dir fs d" "map_of fs p = Some nd" "entry_name d p = Some n"
  shows "\<exists>names. readdirSync d fs = Inr names \<and> n \<in> set names"
proof -
  from assms(2) have "(p, nd) \<in> set fs" by (rule map_of_SomeD)
  with assms(3) have "n \<in> set (List.map_filter (\<lambda>(p, n). entry_name d p) fs)"
    by (force simp: in_map_filter)
  with assms(1) show ?thesis by (simp add: readdirSync_def)
qed

section \<open>The two directories and their entries\<close>

lemma regular_names: "regular ''canvas''" "regular ''file''"
  by (simp_all add: regular_def)

lemma canvasDir_render: "canvasDir pf = render (absolute (dirname pf)) (base_stack (dirname pf) @ [''canvas''])"
  unfolding canvasDir_def using dir_shape [OF regular_names(1), of "dirname pf"] by simp

lemma fileDir_render: "fileDir pf = render (absolute (dirname pf)) (base_stack (dirname pf) @ [''file''])"
  unfolding fileDir_def using dir_shape [OF regular_names(2), of "dirname pf"] by simp

lemma dir_stack_ok: "regular t \<Longrightarrow> stack_ok (\<not> absolute dn) (base_stack dn @ [t])"
  by (rule stack_ok_snoc [OF base_stack_ok])

lemma canvasDir_proper: "canvasDir pf \<noteq> []" "canvasDir pf \<noteq> ''/''"
  unfolding canvasDir_render
  by (rule render_nonempty [OF dir_stack_ok [OF regular_names(1)]], simp)+

lemma self_ancestor: "p \<noteq> [] \<Longrightarrow> p \<noteq> ''/'' \<Longrightarrow> p \<in> set (ancestors p)"
proof -
  assume "p \<noteq> []" "p \<noteq> ''/''"
  moreover have "split_slash p \<in> set (prefixes (split_slash p))" by (simp add: in_set_prefixes)
  then have "join_slash (split_slash p) \<in> set (map join_slash (prefixes (split_slash p)))"
    by simp
  then have "p \<in> set (map join_slash (prefixes (split_slash p)))"
    by (simp only: join_split)
  ultimately show ?thesis by (simp add: ancestors_def)
qed

lemma map_of_new_dirs: "q \<in> set qs \<Longrightarrow> map_of (map (\<lambda>q. (q, Dir)) qs) q = Some Dir"
  by (induction qs) auto

lemma mkdirSync_creates:
  assumes "\<not> existsSync fs p" "p \<noteq> []" "p \<noteq> ''/''" "\<not> (\<exists>q \<in> set (ancestors p). is_file fs q)"
  shows "\<exists>fs'. mkdirSync p fs = Inr fs' \<and> is_dir fs' p"
proof -
  let ?new = "filter (\<lambda>q. map_of fs q = None) (ancestors p)"
  from assms(1) have none: "map_of fs p = None" by (simp add: existsSync_def)
  with self_ancestor [OF assms(2,3)] have "p \<in> set ?new" by simp
  then have "map_of (map (\<lambda>q. (q, Dir)) ?new) p = Some Dir" by (rule map_of_new_dirs)
  with none have "is_dir (fs @ map (\<lambda>q. (q, Dir)) ?new) p"
    by (simp add: is_dir_def map_add_def)
  with assms(4) show ?thesis by (simp add: mkdirSync_def)
qed

lemma json_name_regular:
  assumes "suffix ''.json'' name" "CHR ''/'' \<notin> set name"
  shows "regular name"
proof -
  from assms(1) obtain stem where n: "name = stem @ ''.json''" by (auto simp: suffix_def)
  then have "length name \<ge> 5" by simp
  then have "name \<noteq> []" "name \<noteq> ''.''" "name \<noteq> ''..''" by auto
  with assms(2) show ?thesis by (simp add: regular_def)
qed

lemma canvas_child:
  assumes "regular n"
  shows "path_join (canvasDir pf) n = canvasDir pf @ CHR ''/'' # n"
    and "entry_name (canvasDir pf) (canvasDir pf @ CHR ''/'' # n) = Some n"
  unfolding canvasDir_render
  using child_path [OF dir_stack_ok [OF regular_names(1)] _ assms]
        entry_name_child [OF dir_stack_ok [OF regular_names(1)] _ assms]
  by simp_all


lemma map_throwing_fails:
  "x \<in> set xs \<Longrightarrow> f x = Inl e \<Longrightarrow> \<exists>e'. map_throwing f xs = Inl e'"
  by (induction xs) (auto split: sum.splits)

lemma sample_dirs:
  "canvasDir (engine_stub ''/srv/app/dist'' tbl) = ''/srv/app/canvas''"
  "fileDir (engine_stub ''/srv/app/dist'' tbl) = ''/srv/app/file''"
  unfolding canvasDir_def fileDir_def engine_stub_def by (simp_all, code_simp+)

section \<open>The scanning loop\<close>

lemma scan_loop_done: "i < 0 \<Longrightarrow> scan_loop path start i s = s"
  by (subst scan_loop.simps) simp

lemma scan_loop_plain:
  assumes "startDot s = -1" "\<forall>j < n. path ! (m + j) \<noteq> CHR ''/'' \<and> path ! (m + j) \<noteq> CHR ''.''"
  shows "scan_loop path 0 (int (m + n) - 1) s
       = scan_loop path 0 (int m - 1) (if n = 0 then s else mark_end (int (m + n)) s)"
  using assms
proof (induction n arbitrary: s)
  case 0
  then show ?case by simp
next
  case (Suc n)
  have c: "path ! (m + n) \<noteq> CHR ''/''" "path ! (m + n) \<noteq> CHR ''.''" using Suc.prems(2) by auto
  have step: "scan_loop path 0 (int (m + Suc n) - 1) s
            = scan_loop path 0 (int (m + n) - 1) (mark_end (int (m + Suc n)) s)"
    using Suc.prems(1) c
    by (subst scan_loop.simps) (simp add: Let_def mark_end_def nat_add_distrib algebra_simps)
  have sd: "startDot (mark_end (int (m + Suc n)) s) = -1"
    using Suc.prems(1) by (simp add: mark_end_def)
  have "scan_loop path 0 (int (m + n) - 1) (mark_end (int (m + Suc n)) s)
      = scan_loop path 0 (int m - 1)
          (if n = 0 then mark_end (int (m + Suc n)) s
           else mark_end (int (m + n)) (mark_end (int (m + Suc n)) s))"
    using Suc.prems(2) by (intro Suc.IH [OF sd]) auto
  moreover have "mark_end (int (m + n)) (mark_end (int (m + Suc n)) s) = mark_end (int (m + Suc n)) s"
    by (simp add: mark_end_def)
  ultimately show ?case using step by simp
qed

lemma last_dot_suffix_split:
  "CHR ''.'' \<notin> set post \<Longrightarrow> last_dot_suffix (pre @ CHR ''.'' # post) = CHR ''.'' # post"
proof -
  assume np: "CHR ''.'' \<notin> set post"
  then have "takeWhile (\<lambda>c. c \<noteq> CHR ''.'') (rev post) = rev post"
    by (intro takeWhile_eq_all_conv [THEN iffD2]) auto
  then have "takeWhile (\<lambda>c. c \<noteq> CHR ''.'') (rev post @ CHR ''.'' # rev pre) = rev post"
    using np by (simp add: takeWhile_tail)
  then show ?thesis by (simp add: last_dot_suffix_def)
qed

lemma takeWhile_slashes: "takeWhile (\<lambda>c. c = x) xs = replicate (length (takeWhile (\<lambda>c. c = x) xs)) x"
  by (induction xs) auto

lemma rev_portion_split:
  fixes r :: string
  assumes "r \<noteq> []" "hd r \<noteq> CHR ''/''"
  shows "takeWhile (\<lambda>c. c \<noteq> CHR ''/'') r \<noteq> []"
    and "dropWhile (\<lambda>c. c \<noteq> CHR ''/'') r = [] \<or> hd (dropWhile (\<lambda>c. c \<noteq> CHR ''/'') r) = CHR ''/''"
proof -
  from assms show "takeWhile (\<lambda>c. c \<noteq> CHR ''/'') r \<noteq> []" by (cases r) auto
  show "dropWhile (\<lambda>c. c \<noteq> CHR ''/'') r = [] \<or> hd (dropWhile (\<lambda>c. c \<noteq> CHR ''/'') r) = CHR ''/''"
    using hd_dropWhile [of "\<lambda>c. c \<noteq> CHR ''/''" r] by auto
qed

lemma last_portion_empty:
  assumes "dropWhile (\<lambda>c. c = CHR ''/'') (rev name) = []"
  shows "last_portion name = []" "set name \<subseteq> {CHR ''/''}"
proof -
  show "last_portion name = []" unfolding last_portion_def assms by simp
  from assms have "\<forall>c \<in> set (rev name). c = CHR ''/''" by (simp add: dropWhile_eq_Nil_conv)
  then show "set name \<subseteq> {CHR ''/''}" by auto
qed

lemma last_portion_decompose:
  assumes ne: "dropWhile (\<lambda>c. c = CHR ''/'') (rev name) \<noteq> []"
  shows "\<exists>pre k. name = pre @ last_portion name @ replicate k (CHR ''/'') \<and>
           (pre = [] \<or> last pre = CHR ''/'')"
    and "last_portion name \<noteq> []" and "CHR ''/'' \<notin> set (last_portion name)"
proof -
  define r where "r = dropWhile (\<lambda>c. c = CHR ''/'') (rev name)"
  define t where "t = takeWhile (\<lambda>c. c = CHR ''/'') (rev name)"
  define b where "b = takeWhile (\<lambda>c. c \<noteq> CHR ''/'') r"
  define d where "d = dropWhile (\<lambda>c. c \<noteq> CHR ''/'') r"
  have rn: "rev name = t @ (b @ d)" by (simp add: t_def r_def b_def d_def)
  have tt: "t = replicate (length t) (CHR ''/'')" unfolding t_def by (rule takeWhile_slashes)
  have lp: "last_portion name = rev b" by (simp add: last_portion_def b_def r_def)
  have "hd r \<noteq> CHR ''/''" using ne hd_dropWhile [of "\<lambda>c. c = CHR ''/''" "rev name"] by (simp add: r_def)
  with ne have bne: "b \<noteq> []" and dd: "d = [] \<or> hd d = CHR ''/''"
    unfolding b_def d_def r_def by (rule rev_portion_split)+
  from bne show "last_portion name \<noteq> []" by (simp add: lp)
  show "CHR ''/'' \<notin> set (last_portion name)" unfolding lp b_def by (auto dest: set_takeWhileD)
  have "rev (rev name) = rev (t @ (b @ d))" by (simp only: rn)
  then have n0: "name = rev d @ rev b @ rev t" by simp
  have rt: "rev t = replicate (length t) (CHR ''/'')" by (subst tt) (simp only: rev_replicate)
  have n: "name = rev d @ rev b @ replicate (length t) (CHR ''/'')"
    by (rule trans [OF n0]) (simp only: rt)
  have l: "rev d = [] \<or> last (rev d) = CHR ''/''" using dd by (cases "d = []") (simp_all add: last_rev)
  show "\<exists>pre k. name = pre @ last_portion name @ replicate k (CHR ''/'') \<and>
           (pre = [] \<or> last pre = CHR ''/'')"
    unfolding lp by (rule exI [of _ "rev d"], rule exI [of _ "length t"]) (rule conjI [OF n l])
qed

lemma scan_loop_slashes:
  assumes "matchedSlash s" "\<forall>j < k. path ! (m + j) = CHR ''/''"
  shows "scan_loop path 0 (int (m + k) - 1) s = scan_loop path 0 (int m - 1) s"
  using assms
proof (induction k)
  case 0
  then show ?case by simp
next
  case (Suc k)
  have "path ! (m + k) = CHR ''/''" using Suc.prems(2) by simp
  then have "scan_loop path 0 (int (m + Suc k) - 1) s = scan_loop path 0 (int (m + k) - 1) s"
    using Suc.prems(1) by (subst scan_loop.simps) (simp add: nat_add_distrib algebra_simps)
  with Suc show ?case by simp
qed

lemma preDotState_same: "preDotState s = v \<Longrightarrow> s\<lparr>preDotState := v\<rparr> = s"
  by (cases s) auto

lemma scan_loop_before_dot_from:
  assumes "startDot s \<noteq> -1" "endIdx s \<noteq> -1" "\<forall>j \<le> n. path ! (m + j) \<noteq> CHR ''/''"
  shows "scan_loop path 0 (int (m + n)) s
       = scan_loop path 0 (int m - 1) (s\<lparr>preDotState := (if path ! m = CHR ''.'' then 1 else -1)\<rparr>)"
  using assms
proof (induction n arbitrary: s)
  case 0
  then show ?case by (subst scan_loop.simps) (auto simp: Let_def preDotState_same)
next
  case (Suc n)
  let ?s2 = "if path ! (m + Suc n) = CHR ''.'' then (if preDotState s \<noteq> 1 then s\<lparr>preDotState := 1\<rparr> else s)
             else s\<lparr>preDotState := -1\<rparr>"
  have c: "path ! Suc (m + n) \<noteq> CHR ''/''" using Suc.prems(3) [rule_format, of "Suc n"] by simp
  have step: "scan_loop path 0 (int (m + Suc n)) s = scan_loop path 0 (int (m + n)) ?s2"
    using Suc.prems(1,2) c by (subst scan_loop.simps) (simp add: Let_def nat_add_distrib algebra_simps)
  have "scan_loop path 0 (int (m + n)) ?s2
      = scan_loop path 0 (int m - 1) (?s2\<lparr>preDotState := (if path ! m = CHR ''.'' then 1 else -1)\<rparr>)"
    using Suc.prems by (intro Suc.IH) auto
  moreover have "?s2\<lparr>preDotState := (if path ! m = CHR ''.'' then 1 else -1)\<rparr>
      = s\<lparr>preDotState := (if path ! m = CHR ''.'' then 1 else -1)\<rparr>" by simp
  ultimately show ?case using step by simp
qed

lemma scan_loop_break:
  assumes "pre = [] \<or> last pre = CHR ''/''" "\<not> matchedSlash s" "startPart s = 0"
  shows "scan_loop (pre @ rest) 0 (int (length pre) - 1) s = s\<lparr>startPart := int (length pre)\<rparr>"
proof (cases "pre = []")
  case True
  with assms(3) show ?thesis by (simp add: scan_loop_done)
next
  case False
  with assms(1) have "last pre = CHR ''/''" by simp
  with False have "(pre @ rest) ! (length pre - 1) = CHR ''/''"
    by (simp add: nth_append last_conv_nth)
  moreover from False have "nat (int (length pre) - 1) = length pre - 1" by simp
  moreover from False have "\<not> int (length pre) - 1 < 0" by (cases pre) simp_all
  ultimately show ?thesis using assms(2) by (subst scan_loop.simps) simp
qed

lemma scan_portion_no_dot:
  assumes path: "path = pre @ base @ replicate k (CHR ''/'')"
    and pre: "pre = [] \<or> last pre = CHR ''/''"
    and base: "base \<noteq> []" "CHR ''/'' \<notin> set base" "CHR ''.'' \<notin> set base"
  shows "scan_loop path 0 (int (length path) - 1) scan_init
       = \<lparr>startDot = -1, startPart = int (length pre),
          endIdx = int (length pre + length base), matchedSlash = False, preDotState = 0\<rparr>"
proof -
  let ?m = "length pre" and ?n = "length base"
  have len: "length path = (?m + ?n) + k" by (simp add: path)
  have "\<forall>j < k. path ! ((?m + ?n) + j) = CHR ''/''"
    by (simp add: path nth_append)
  then have a: "scan_loop path 0 (int (length path) - 1) scan_init
              = scan_loop path 0 (int (?m + ?n) - 1) scan_init"
    unfolding len by (intro scan_loop_slashes) (simp add: scan_init_def)
  have "\<forall>j < ?n. path ! (?m + j) \<noteq> CHR ''/'' \<and> path ! (?m + j) \<noteq> CHR ''.''"
  proof (intro allI impI)
    fix j assume j: "j < ?n"
    then have "path ! (?m + j) = base ! j" by (simp add: path nth_append)
    moreover from j have "base ! j \<in> set base" by simp
    ultimately show "path ! (?m + j) \<noteq> CHR ''/'' \<and> path ! (?m + j) \<noteq> CHR ''.''"
      using base(2,3) by metis
  qed
  then have b: "scan_loop path 0 (int (?m + ?n) - 1) scan_init
              = scan_loop path 0 (int ?m - 1) (mark_end (int (?m + ?n)) scan_init)"
    using base(1) by (subst scan_loop_plain) (simp_all add: scan_init_def)
  have c: "scan_loop path 0 (int ?m - 1) (mark_end (int (?m + ?n)) scan_init)
         = (mark_end (int (?m + ?n)) scan_init)\<lparr>startPart := int ?m\<rparr>"
    unfolding path by (rule scan_loop_break [OF pre]) (simp_all add: mark_end_def scan_init_def)
  from a b c show ?thesis by (simp add: mark_end_def scan_init_def)
qed

lemma scan_dot_step:
  assumes dot: "path ! d = CHR ''.''" and N: "N = Suc d + n2"
  shows "scan_loop path 0 (int d) (if n2 = 0 then scan_init else mark_end (int N) scan_init)
       = scan_loop path 0 (int d - 1)
           (scan_init\<lparr>matchedSlash := False, endIdx := int N, startDot := int d\<rparr>)"
proof (cases "n2 = 0")
  case True
  with N have "int d + 1 = int N" by simp
  with dot True show ?thesis
    by (subst scan_loop.simps) (simp add: Let_def scan_init_def)
next
  case False
  with dot show ?thesis
    by (subst scan_loop.simps) (simp add: Let_def scan_init_def mark_end_def)
qed

lemma scan_portion_dot:
  assumes path: "path = pre @ base @ replicate k (CHR ''/'')"
    and pre: "pre = [] \<or> last pre = CHR ''/''"
    and base: "base = b1 @ CHR ''.'' # b2" "CHR ''/'' \<notin> set base" "CHR ''.'' \<notin> set b2"
  shows "scan_loop path 0 (int (length path) - 1) scan_init
       = \<lparr>startDot = int (length pre + length b1), startPart = int (length pre),
          endIdx = int (length pre + length base), matchedSlash = False,
          preDotState = (if b1 = [] then 0 else if hd b1 = CHR ''.'' then 1 else -1)\<rparr>"
proof -
  define m where "m = length pre"
  define d where "d = length pre + length b1"
  define N where "N = length pre + length base"
  define s2 where "s2 = scan_init\<lparr>matchedSlash := False, endIdx := int N, startDot := int d\<rparr>"
  define pds :: int where "pds = (if b1 = [] then 0 else if hd b1 = CHR ''.'' then 1 else -1)"
  have len: "length path = N + k" by (simp add: path N_def)
  have N: "N = Suc d + length b2" by (simp add: base(1) N_def d_def)
  have at: "\<And>j. j < length base \<Longrightarrow> path ! (m + j) = base ! j"
    by (simp add: path nth_append m_def)
  have "\<forall>j < k. path ! (N + j) = CHR ''/''"
    by (simp add: path nth_append N_def)
  then have a: "scan_loop path 0 (int (length path) - 1) scan_init
              = scan_loop path 0 (int N - 1) scan_init"
    unfolding len by (intro scan_loop_slashes) (simp add: scan_init_def)
  have "\<forall>j < length b2. path ! (Suc d + j) \<noteq> CHR ''/'' \<and> path ! (Suc d + j) \<noteq> CHR ''.''"
  proof (intro allI impI)
    fix j assume j: "j < length b2"
    then have "path ! (m + (Suc (length b1) + j)) = base ! (Suc (length b1) + j)"
      by (intro at) (simp add: base(1))
    also have "\<dots> = b2 ! j" by (simp add: base(1) nth_append)
    finally have "path ! (Suc d + j) = b2 ! j" by (simp add: d_def m_def add.assoc)
    moreover from j have "b2 ! j \<in> set b2" by simp
    moreover have "CHR ''/'' \<notin> set b2" using base(2) by (simp add: base(1))
    ultimately show "path ! (Suc d + j) \<noteq> CHR ''/'' \<and> path ! (Suc d + j) \<noteq> CHR ''.''"
      using base(3) by metis
  qed
  then have "scan_loop path 0 (int (Suc d + length b2) - 1) scan_init
           = scan_loop path 0 (int (Suc d) - 1)
               (if length b2 = 0 then scan_init else mark_end (int (Suc d + length b2)) scan_init)"
    by (intro scan_loop_plain) (simp add: scan_init_def)
  then have b: "scan_loop path 0 (int N - 1) scan_init
           = scan_loop path 0 (int d) (if length b2 = 0 then scan_init else mark_end (int N) scan_init)"
    by (simp add: N)
  have "path ! (m + length b1) = base ! length b1" by (intro at) (simp add: base(1))
  then have dot: "path ! d = CHR ''.''" by (simp add: base(1) d_def m_def)
  have c: "scan_loop path 0 (int d) (if length b2 = 0 then scan_init else mark_end (int N) scan_init)
         = scan_loop path 0 (int d - 1) s2"
    unfolding s2_def by (rule scan_dot_step [OF dot N])
  have sd: "startDot s2 \<noteq> -1" "endIdx s2 \<noteq> -1" by (simp_all add: s2_def)
  have d: "scan_loop path 0 (int d - 1) s2 = scan_loop path 0 (int m - 1) (s2\<lparr>preDotState := pds\<rparr>)"
  proof (cases b1)
    case Nil
    then have "d = m" "pds = 0" by (simp_all add: d_def m_def pds_def)
    moreover have "s2\<lparr>preDotState := 0\<rparr> = s2"
      by (rule preDotState_same) (simp add: s2_def scan_init_def)
    ultimately show ?thesis by simp
  next
    case (Cons x xs)
    have "\<forall>j \<le> length xs. path ! (m + j) \<noteq> CHR ''/''"
    proof (intro allI impI)
      fix j assume j: "j \<le> length xs"
      then have "path ! (m + j) = base ! j" by (intro at) (simp add: base(1) Cons)
      moreover from j have "j < length base" by (simp add: base(1) Cons)
      then have "base ! j \<in> set base" by (rule nth_mem)
      ultimately show "path ! (m + j) \<noteq> CHR ''/''" using base(2) by metis
    qed
    from scan_loop_before_dot_from [OF sd this]
    have "scan_loop path 0 (int (m + length xs)) s2
        = scan_loop path 0 (int m - 1) (s2\<lparr>preDotState := (if path ! m = CHR ''.'' then 1 else -1)\<rparr>)" .
    moreover have "path ! (m + 0) = base ! 0" by (intro at) (simp add: base(1))
    then have "path ! m = x" by (simp add: base(1) Cons)
    moreover have "int d - 1 = int (m + length xs)" by (simp add: Cons d_def m_def)
    moreover have "pds = (if x = CHR ''.'' then 1 else -1)" by (simp add: pds_def Cons)
    ultimately show ?thesis by simp
  qed
  have e: "scan_loop path 0 (int m - 1) (s2\<lparr>preDotState := pds\<rparr>)
         = (s2\<lparr>preDotState := pds\<rparr>)\<lparr>startPart := int m\<rparr>"
    unfolding path m_def by (rule scan_loop_break [OF pre]) (simp_all add: s2_def scan_init_def)
  from a b c d e show ?thesis
    by (simp add: s2_def scan_init_def pds_def m_def d_def N_def)
qed

lemma extname_only_slashes:
  assumes "set name \<subseteq> {CHR ''/''}"
  shows "extname name = []"
proof -
  have "\<forall>j < length name. name ! (0 + j) = CHR ''/''" using assms by (auto simp: subset_iff)
  from scan_loop_slashes [of scan_init "length name" name 0, OF _ this]
  have "scan_loop name 0 (int (length name) - 1) scan_init = scan_init"
    by (simp add: scan_loop_done) (simp add: scan_init_def)
  then show ?thesis unfolding extname_def by (simp add: scan_init_def)
qed

lemma extname_of_portion:
  assumes path: "path = pre @ base @ replicate k (CHR ''/'')"
    and pre: "pre = [] \<or> last pre = CHR ''/''"
    and base: "base \<noteq> []" "CHR ''/'' \<notin> set base"
  shows "extname path =
     (if base = ''..'' \<or> (hd base = CHR ''.'' \<and> CHR ''.'' \<notin> set (tl base)) then []
      else last_dot_suffix base)"
proof (cases "CHR ''.'' \<in> set base")
  case False
  note st = scan_portion_no_dot [OF path pre base False]
  have "extname path = []" unfolding extname_def st by (simp add: no_ext_def)
  moreover from False have "last_dot_suffix base = []" by (simp add: last_dot_suffix_def)
  ultimately show ?thesis by simp
next
  case True
  then obtain b1 b2 where sp: "base = b1 @ CHR ''.'' # b2" and b2: "CHR ''.'' \<notin> set b2"
    using split_list_last [of "CHR ''.''" base] by blast
  note st = scan_portion_dot [OF path pre sp base(2) b2]
  have lds: "last_dot_suffix base = CHR ''.'' # b2" by (simp add: sp last_dot_suffix_split [OF b2])
  have "nat (int (length pre + length base) - int (length pre + length b1)) = Suc (length b2)"
    by (simp add: sp)
  then have sl: "slice path (int (length pre + length b1)) (int (length pre + length base)) = CHR ''.'' # b2"
    unfolding slice_def by (simp add: path sp)
  show ?thesis
  proof (cases b1)
    case Nil
    then have "extname path = []" unfolding extname_def st by (simp add: no_ext_def)
    moreover have "hd base = CHR ''.'' \<and> CHR ''.'' \<notin> set (tl base)" using Nil sp b2 by simp
    ultimately show ?thesis by simp
  next
    case (Cons x xs)
    then have dot_tl: "CHR ''.'' \<in> set (tl base)" by (simp add: sp)
    show ?thesis
    proof (cases "base = ''..''")
      case True
      with sp Cons b2 have "b1 = ''.''" "b2 = []"
        by (auto simp: Cons_eq_append_conv append_eq_Cons_conv)
      then have "extname path = []" unfolding extname_def st by (simp add: no_ext_def sp)
      with True show ?thesis by simp
    next
      case False
      have "\<not> (hd b1 = CHR ''.'' \<and> b2 = [] \<and> length b1 = 1)"
      proof
        assume h: "hd b1 = CHR ''.'' \<and> b2 = [] \<and> length b1 = 1"
        with Cons have "b1 = ''.''" by (cases xs) auto
        with h have "base = ''..''" by (simp add: sp)
        with False show False by simp
      qed
      then have "\<not> no_ext (scan_loop path 0 (int (length path) - 1) scan_init)"
        using Cons unfolding st by (auto simp: no_ext_def sp)
      then have "extname path = CHR ''.'' # b2"
        unfolding extname_def Let_def by (simp add: st sl [unfolded of_nat_add])
      with False dot_tl lds show ?thesis by simp
    qed
  qed
qed

lemma extname_last_portion:
  "extname name =
     (let base = last_portion name in
      if base = ''..'' \<or> (base \<noteq> [] \<and> hd base = CHR ''.'' \<and> CHR ''.'' \<notin> set (tl base)) then []
      else last_dot_suffix base)"
proof (cases "dropWhile (\<lambda>c. c = CHR ''/'') (rev name) = []")
  case True
  from last_portion_empty [OF True] extname_only_slashes [of name]
  show ?thesis by (simp add: last_dot_suffix_def)
next
  case False
  from last_portion_decompose [OF False]
  obtain pre k where "name = pre @ last_portion name @ replicate k (CHR ''/'')"
    "pre = [] \<or> last pre = CHR ''/''" "last_portion name \<noteq> []" "CHR ''/'' \<notin> set (last_portion name)"
    by blast
  from extname_of_portion [OF this] this(3) show ?thesis by (simp add: Let_def)
qed





section \<open>Object literals\<close>

lemma get_prop_set_prop:
  "get_prop (JObj (set_prop k v obj)) k' = (if k' = k then Some v else get_prop (JObj obj) k')"
  by (simp add: get_prop_def set_prop_def update_conv')

lemma spread_untouched:
  "k \<notin> fst ` set props \<Longrightarrow>
   map_of (foldl (\<lambda>acc (k, x). set_prop k x acc) obj props) k = map_of obj k"
  by (induction props arbitrary: obj) (auto simp: set_prop_def update_conv')

lemma newCanvas_createAt: "get_prop (newCanvas canvasId now canvasData) ''createAt'' = Some (JStr now)"
  by (simp add: newCanvas_def get_prop_set_prop)

lemma newCanvas_id_default:
  assumes "map_of (own_props canvasData) ''id'' = None"
  shows "get_prop (newCanvas canvasId now canvasData) ''id'' = Some (JStr canvasId)"
proof -
  from assms have "''id'' \<notin> fst ` set (own_props canvasData)" by (simp add: map_of_eq_None_iff)
  from spread_untouched [OF this]
  have "map_of (spread (set_prop ''id'' (JStr canvasId) []) canvasData) ''id'' = Some (JStr canvasId)"
    by (simp add: spread_def set_prop_def)
  then show ?thesis by (simp add: newCanvas_def get_prop_set_prop) (simp add: get_prop_def)
qed

section \<open>Creating documents\<close>

lemma map_of_insert:
  assumes "map_of fs p = None"
  shows "map_of (take k fs @ (p, v) # drop k fs) = (map_of fs)(p \<mapsto> v)"
proof (rule ext)
  fix q
  have none: "map_of (take k fs) p = None"
    using assms by (metis append_take_drop_id map_add_None map_of_append)
  have whole: "map_of fs q = (map_of (drop k fs) ++ map_of (take k fs)) q"
    by (metis append_take_drop_id map_of_append)
  show "map_of (take k fs @ (p, v) # drop k fs) q = ((map_of fs)(p \<mapsto> v)) q"
  proof (cases "q = p")
    case True
    with none show ?thesis by (simp add: map_add_def)
  next
    case False
    with whole show ?thesis by (simp add: map_add_def split: option.splits)
  qed
qed

lemma writeFileSync_stores:
  assumes "writeFileSync slot p c fs = Inr fs'"
  shows "map_of fs' p = Some (File c)"
proof (cases "map_of fs p = None")
  case True
  with assms have "fs' = take slot fs @ (p, File c) # drop slot fs"
    by (auto simp: writeFileSync_def split: if_splits)
  with map_of_insert [OF True, of slot "File c"] show ?thesis by simp
next
  case False
  with assms have "fs' = AList.update p (File c) fs"
    by (auto simp: writeFileSync_def split: if_splits)
  then show ?thesis by (simp add: update_conv')
qed

lemma create_then_getById:
  assumes ok: "create pf canvasId now slot canvasData fs = (Reply 201 doc, fs')"
    and rt: "JSON_parse pf (JSON_stringify pf doc) = Some doc"
  shows "doc = newCanvas canvasId now canvasData" and "getById pf canvasId fs' = Reply 200 doc"
proof -
  let ?p = "path_join (canvasDir pf) (canvasId @ ''.json'')"
  from ok have d: "doc = newCanvas canvasId now canvasData"
    and w: "writeFileSync slot ?p (JSON_stringify pf doc) fs = Inr fs'"
    by (auto simp: create_def Let_def split: sum.splits)
  show "doc = newCanvas canvasId now canvasData" by (rule d)
  from writeFileSync_stores [OF w] rt show "getById pf canvasId fs' = Reply 200 doc"
    by (simp add: getById_def existsSync_def read_canvas_def readFileSync_def)
qed

text \<open>
  C1 (defect in the code). The claim: the structure that \<^verbatim>\<open>POST /canvas\<close> stores and
  returns carries the generated identifier in \<^verbatim>\<open>id\<close> and the current time in
  \<^verbatim>\<open>createAt\<close>, whatever the submitted document holds under these names. The object
  literal writes \<^verbatim>\<open>id\<close> before it spreads the request body and \<^verbatim>\<open>createAt\<close> after it,
  so only \<^verbatim>\<open>createAt\<close> is protected (\<open>newCanvas_createAt\<close>), and the generated \<^verbatim>\<open>id\<close>
  survives only when the body has none (\<open>newCanvas_id_default\<close>). The run below submits
  \<^verbatim>\<open>{"id":"mine","title":"sketch"}\<close> while the generated token is \<open>token1\<close>: the
  response carries \<^verbatim>\<open>id = "mine"\<close>.
\<close>

theorem create_id_overridden_by_caller:
  "fst (create caller_engine token1 day1 5 caller_doc sample_disk)
     = Reply 201 (JObj [(''id'', JStr ''mine''), (''title'', JStr ''sketch''), (''createAt'', JStr day1)])"
  by code_simp

text \<open>
  C2 (defect in the code, the one of C1). The claim: every entry's file name is its
  identifier plus the suffix of its store, so the document stored at \<^verbatim>\<open>{x}.json\<close> has
  \<^verbatim>\<open>id = x\<close>. After the same request the canvas directory lists the single entry
  \<open>token1 @ ''.json''\<close>, and the document read back from it has \<^verbatim>\<open>id = "mine"\<close>.
\<close>

theorem stored_id_differs_from_file_name:
  "readdirSync (canvasDir caller_engine) (snd (create caller_engine token1 day1 5 caller_doc sample_disk))
     = Inr [token1 @ ''.json''] \<and>
   read_canvas caller_engine (path_join (canvasDir caller_engine) (token1 @ ''.json''))
       (snd (create caller_engine token1 day1 5 caller_doc sample_disk))
     = Inr (JObj [(''id'', JStr ''mine''), (''title'', JStr ''sketch''), (''createAt'', JStr day1)])"
  by code_simp

text \<open>
  C4 (defect in the code, the one of C1). The claim: \<^verbatim>\<open>getById\<close> with the \<^verbatim>\<open>id\<close> of the
  structure that create returned yields that structure. After the same request the
  returned \<^verbatim>\<open>id\<close> is \<^verbatim>\<open>"mine"\<close>, no file \<^verbatim>\<open>mine.json\<close> exists, and the lookup answers
  404. The document is found under the generated token (\<open>create_then_getById\<close>), which
  is the returned \<^verbatim>\<open>id\<close> only when the body brings none.
\<close>

theorem getById_misses_created_document:
  "fst (create caller_engine token1 day1 5 caller_doc sample_disk)
     = Reply 201 (newCanvas token1 day1 caller_doc) \<and>
   get_prop (newCanvas token1 day1 caller_doc) ''id'' = Some (JStr ''mine'') \<and>
   getById caller_engine ''mine'' (snd (create caller_engine token1 day1 5 caller_doc sample_disk))
     = Failed 404"
  by code_simp

section \<open>Listing the documents\<close>

lemma sort_insert_NaN:
  "\<forall>y \<in> set ys. cmp x y = Inr None \<Longrightarrow> sort_insert cmp x ys = Inr (x # ys)"
  by (cases ys) auto

lemma js_sort_NaN:
  "\<forall>x \<in> set xs. \<forall>y \<in> set xs. cmp x y = Inr None \<Longrightarrow> js_sort cmp xs = Inr xs"
  by (induction xs) (auto simp: sort_insert_NaN)

lemma by_createDate_NaN:
  assumes "a \<noteq> JNull" "b \<noteq> JNull" "get_prop a ''createDate'' = None \<or> get_prop b ''createDate'' = None"
  shows "by_createDate pf a b = Inr None"
  using assms by (auto simp: by_createDate_def createDate_def js_minus_def split: json.splits option.splits)

lemma listAll_directory_order:
  assumes "existsSync fs (canvasDir pf)"
    and "readdirSync (canvasDir pf) fs = Inr names"
    and "map_throwing (\<lambda>file. read_canvas pf (path_join (canvasDir pf) file) fs)
           (filter (\<lambda>file. suffix ''.json'' file) names) = Inr canvases"
    and "\<forall>a \<in> set canvases. a \<noteq> JNull \<and> get_prop a ''createDate'' = None"
  shows "listAll pf fs = (Reply 200 canvases, fs)"
proof -
  have "js_sort (by_createDate pf) canvases = Inr canvases"
    using assms(4) by (intro js_sort_NaN) (simp add: by_createDate_NaN)
  with assms(1-3) show ?thesis by (simp add: listAll_def)
qed

text \<open>
  C3 (defect in the code). The claim: \<^verbatim>\<open>GET /canvas\<close> returns the documents newest
  first. The comparator subtracts the \<^verbatim>\<open>createDate\<close> properties, which no created document
  has (create writes \<^verbatim>\<open>createAt\<close>): every comparison is \<^verbatim>\<open>NaN\<close>, and the answer is the
  order in which the directory lists the files (\<open>listAll_directory_order\<close>). The run
  below creates three documents on three consecutive days in a directory that lists them
  in that order: the answer has the oldest first.
\<close>

theorem listAll_oldest_first:
  "fst (listAll listing_engine three_created)
     = Reply 200
         [JObj [(''id'', JStr token1), (''title'', JStr ''first''), (''createAt'', JStr day1)],
          JObj [(''id'', JStr token2), (''title'', JStr ''second''), (''createAt'', JStr day2)],
          JObj [(''id'', JStr token3), (''title'', JStr ''third''), (''createAt'', JStr day3)]]"
  by code_simp

text \<open>
  C8. If the canvas directory can be read and one of its \<^verbatim>\<open>.json\<close> entries does not
  parse, \<^verbatim>\<open>GET /canvas\<close> answers with the storage error 500 and no partial list,
  whatever the other entries hold; the disk is left as it was.
\<close>

theorem listAll_aborts_on_malformed_entry:
  assumes dir: "is_dir fs (canvasDir pf)"
    and entry: "map_of fs (canvasDir pf @ CHR ''/'' # name) = Some (File c)"
    and name: "CHR ''/'' \<notin> set name" "suffix ''.json'' name"
    and bad: "JSON_parse pf c = None"
  shows "listAll pf fs = (Failed 500, fs)"
proof -
  have reg: "regular name" by (rule json_name_regular [OF name(2) name(1)])
  from readdir_lists [OF dir entry canvas_child(2) [OF reg]]
  obtain names where rd: "readdirSync (canvasDir pf) fs = Inr names" and mem: "name \<in> set names"
    by blast
  let ?f = "\<lambda>file. read_canvas pf (path_join (canvasDir pf) file) fs"
  have thrown: "?f name = Inl SyntaxError"
    using entry bad by (simp add: canvas_child(1) [OF reg] read_canvas_def readFileSync_def)
  from mem name(2) have "name \<in> set (filter (\<lambda>file. suffix ''.json'' file) names)" by simp
  from map_throwing_fails [of name _ ?f, OF this thrown]
  obtain e' where "map_throwing ?f (filter (\<lambda>file. suffix ''.json'' file) names) = Inl e'" ..
  moreover from dir have "existsSync fs (canvasDir pf)" by (auto simp: is_dir_def existsSync_def)
  ultimately show ?thesis using rd by (simp add: listAll_def)
qed

theorem listAll_aborts_on_malformed_entry_witness:
  "is_dir [(''/srv/app/canvas'', Dir), (''/srv/app/canvas/a.json'', File ''{'')]
     (canvasDir (engine_stub ''/srv/app/dist'' [])) \<and>
   map_of [(''/srv/app/canvas'', Dir), (''/srv/app/canvas/a.json'', File ''{'')]
     (canvasDir (engine_stub ''/srv/app/dist'' []) @ CHR ''/'' # ''a.json'') = Some (File ''{'') \<and>
   CHR ''/'' \<notin> set ''a.json'' \<and> suffix ''.json'' ''a.json'' \<and>
   JSON_parse (engine_stub ''/srv/app/dist'' []) ''{'' = None \<and>
   listAll (engine_stub ''/srv/app/dist'' [])
       [(''/srv/app/canvas'', Dir), (''/srv/app/canvas/a.json'', File ''{'')]
     = (Failed 500, [(''/srv/app/canvas'', Dir), (''/srv/app/canvas/a.json'', File ''{'')])"
proof -
  let ?pf = "engine_stub ''/srv/app/dist'' []"
  let ?fs = "[(''/srv/app/canvas'', Dir), (''/srv/app/canvas/a.json'', File ''{'')]"
  have 1: "is_dir ?fs (canvasDir ?pf)" by (simp add: sample_dirs is_dir_def)
  have 2: "map_of ?fs (canvasDir ?pf @ CHR ''/'' # ''a.json'') = Some (File ''{'')"
    by (simp add: sample_dirs)
  have 3: "CHR ''/'' \<notin> set ''a.json''" by simp
  have 4: "suffix ''.json'' ''a.json''" by (simp add: suffix_def)
  have 5: "JSON_parse ?pf ''{'' = None" by (simp add: engine_stub_def)
  from listAll_aborts_on_malformed_entry [OF 1 2 3 4 5] 1 2 3 4 5 show ?thesis by blast
qed

text \<open>
  C9. When the canvas directory does not exist (and no regular file stands where it or a
  directory above it is to be made), \<^verbatim>\<open>GET /canvas\<close> answers with the empty list and
  the directory exists afterwards; when the directory exists and lists no entry, the
  answer is the empty list and the disk is unchanged.
\<close>

theorem listAll_heals_missing_dir:
  "(\<not> existsSync fs (canvasDir pf) \<and> \<not> (\<exists>q \<in> set (ancestors (canvasDir pf)). is_file fs q) \<longrightarrow>
      fst (listAll pf fs) = Reply 200 [] \<and> is_dir (snd (listAll pf fs)) (canvasDir pf)) \<and>
   (readdirSync (canvasDir pf) fs = Inr [] \<longrightarrow> listAll pf fs = (Reply 200 [], fs))"
proof (intro conjI impI)
  assume a: "\<not> existsSync fs (canvasDir pf) \<and> \<not> (\<exists>q \<in> set (ancestors (canvasDir pf)). is_file fs q)"
  then obtain fs' where m: "mkdirSync (canvasDir pf) fs = Inr fs'" and d: "is_dir fs' (canvasDir pf)"
    using mkdirSync_creates [OF _ canvasDir_proper, of fs pf] by blast
  from a m show "fst (listAll pf fs) = Reply 200 []" by (simp add: listAll_def)
  from a m d show "is_dir (snd (listAll pf fs)) (canvasDir pf)" by (simp add: listAll_def)
next
  assume r: "readdirSync (canvasDir pf) fs = Inr []"
  then have "is_dir fs (canvasDir pf)" by (auto simp: readdirSync_def split: if_splits)
  then have "existsSync fs (canvasDir pf)" by (auto simp: is_dir_def existsSync_def)
  with r show "listAll pf fs = (Reply 200 [], fs)" by (simp add: listAll_def)
qed

theorem listAll_heals_missing_dir_witness:
  "(\<not> existsSync [(''/srv'', Dir), (''/srv/app'', Dir)] (canvasDir (engine_stub ''/srv/app/dist'' [])) \<and>
    \<not> (\<exists>q \<in> set (ancestors (canvasDir (engine_stub ''/srv/app/dist'' []))).
        is_file [(''/srv'', Dir), (''/srv/app'', Dir)] q) \<and>
    fst (listAll (engine_stub ''/srv/app/dist'' []) [(''/srv'', Dir), (''/srv/app'', Dir)]) = Reply 200 [] \<and>
    is_dir (snd (listAll (engine_stub ''/srv/app/dist'' []) [(''/srv'', Dir), (''/srv/app'', Dir)]))
      (canvasDir (engine_stub ''/srv/app/dist'' []))) \<and>
   (readdirSync (canvasDir (engine_stub ''/srv/app/dist'' [])) [(''/srv/app/canvas'', Dir)] = Inr [] \<and>
    listAll (engine_stub ''/srv/app/dist'' []) [(''/srv/app/canvas'', Dir)]
      = (Reply 200 [], [(''/srv/app/canvas'', Dir)]))"
proof -
  let ?pf = "engine_stub ''/srv/app/dist'' []"
  let ?fs = "[(''/srv'', Dir), (''/srv/app'', Dir)]"
  have anc: "ancestors ''/srv/app/canvas'' = [''/srv'', ''/srv/app'', ''/srv/app/canvas'']"
    by code_simp
  have 1: "\<not> existsSync ?fs (canvasDir ?pf)" by (simp add: sample_dirs existsSync_def)
  have 2: "\<not> (\<exists>q \<in> set (ancestors (canvasDir ?pf)). is_file ?fs q)"
    by (simp add: sample_dirs anc is_file_def)
  have pd: "parent_dir ''/srv/app/canvas'' = ''/srv/app''" by code_simp
  have 3: "readdirSync (canvasDir ?pf) [(''/srv/app/canvas'', Dir)] = Inr []"
    by (simp add: sample_dirs readdirSync_def is_dir_def entry_name_def pd)
  from listAll_heals_missing_dir [of ?fs ?pf] 1 2
  have a: "fst (listAll ?pf ?fs) = Reply 200 [] \<and> is_dir (snd (listAll ?pf ?fs)) (canvasDir ?pf)"
    by blast
  from listAll_heals_missing_dir [of "[(''/srv/app/canvas'', Dir)]" ?pf] 3
  have b: "listAll ?pf [(''/srv/app/canvas'', Dir)] = (Reply 200 [], [(''/srv/app/canvas'', Dir)])"
    by blast
  from 1 2 3 a b show ?thesis by blast
qed

section \<open>Blob store\<close>

text \<open>
  C6 (corrected). As claimed, the extension would be the substring from the last dot of
  the name for every name. \<^verbatim>\<open>path.extname\<close> gives no extension to a name whose only dot
  is its first character (\<^verbatim>\<open>.bashrc\<close> is stored under the bare token), and it looks for
  the dot in the last portion of the name only.
\<close>

theorem dotfile_extension_counterexample:
  "storage_filename token1 ''.bashrc'' = token1 \<and> last_dot_suffix ''.bashrc'' = ''.bashrc'' \<and>
   storage_filename token1 ''v1.2/notes'' = token1 \<and> last_dot_suffix ''v1.2/notes'' = ''.2/notes''"
  by code_simp

text \<open>
  C6 as amended. For every original name, the stored entry is the token followed by the
  substring from the last dot of the last portion of the name, the dot included; the
  extension is empty when that portion has no dot, when its only dot is its first
  character, and when the portion is \<^verbatim>\<open>..\<close>.
\<close>

theorem storage_filename_extension:
  "storage_filename fileId name =
     fileId @
     (let base = last_portion name in
      if base = ''..'' \<or> (base \<noteq> [] \<and> hd base = CHR ''.'' \<and> CHR ''.'' \<notin> set (tl base)) then []
      else last_dot_suffix base)"
  unfolding storage_filename_def by (simp only: Let_def extname_last_portion)

theorem storage_filename_extension_witness:
  "storage_filename token1 ''photo.jpg'' = token1 @ ''.jpg'' \<and>
   storage_filename token1 ''archive.tar.gz'' = token1 @ ''.gz'' \<and>
   storage_filename token1 ''README'' = token1"
proof -
  have "last_portion ''photo.jpg'' = ''photo.jpg''" "last_dot_suffix ''photo.jpg'' = ''.jpg''"
    "last_portion ''archive.tar.gz'' = ''archive.tar.gz''" "last_dot_suffix ''archive.tar.gz'' = ''.gz''"
    "last_portion ''README'' = ''README''" "last_dot_suffix ''README'' = []"
    by code_simp+
  with storage_filename_extension [of token1 "''photo.jpg''"]
    storage_filename_extension [of token1 "''archive.tar.gz''"]
    storage_filename_extension [of token1 "''README''"]
  show ?thesis by simp
qed

lemma readdir_lists_all:
  assumes rd: "readdirSync d fs = Inr names" and p: "map_of fs p = Some nd" and e: "entry_name d p = Some n"
  shows "n \<in> set names"
proof -
  from rd have "is_dir fs d" by (auto simp: readdirSync_def split: if_splits)
  from readdir_lists [OF this p e] rd show ?thesis by simp
qed

















section \<open>Looking up by identifier\<close>

lemma get_file_not_500:
  assumes "readdirSync (fileDir pf) fs = Inr files"
  shows "get_file pf fileId fs \<noteq> Failed 500"
  using assms by (auto simp: get_file_def sendFile_def split: option.splits sum.splits)

lemma get_file_unmatched:
  assumes "readdirSync (fileDir pf) fs = Inr files" "\<not> (\<exists>f \<in> set files. prefix fileId f)"
  shows "get_file pf fileId fs = Failed 404"
proof -
  from assms(2) have "find (\<lambda>file. prefix fileId file) files = None" by (simp add: find_None_iff)
  with assms(1) show ?thesis by (simp add: get_file_def)
qed

lemma ident_json_regular: "CHR ''/'' \<notin> set ident \<Longrightarrow> regular (ident @ ''.json'')"
  by (rule json_name_regular) (simp_all add: suffix_def)

lemma getById_unlisted:
  assumes rd: "readdirSync (canvasDir pf) fs = Inr names" and ns: "CHR ''/'' \<notin> set ident"
    and un: "ident @ ''.json'' \<notin> set names"
  shows "getById pf ident fs = Failed 404"
proof -
  let ?p = "canvasDir pf @ CHR ''/'' # ident @ ''.json''"
  note reg = ident_json_regular [OF ns]
  have pj: "path_join (canvasDir pf) (ident @ ''.json'') = ?p" by (rule canvas_child(1) [OF reg])
  have "map_of fs ?p = None"
  proof (rule ccontr)
    assume "map_of fs ?p \<noteq> None"
    then obtain nd where "map_of fs ?p = Some nd" by blast
    from readdir_lists_all [OF rd this canvas_child(2) [OF reg]] un show False by simp
  qed
  moreover have "?p \<noteq> ''/''" using canvasDir_proper(1) [of pf] by (simp add: append_eq_Cons_conv)
  ultimately have "\<not> existsSync fs ?p" by (simp add: existsSync_def)
  then show ?thesis by (simp add: getById_def pj)
qed

text \<open>
  C7 (corrected). As claimed, an identifier that was never created would always get 404.
  The blob lookup matches by prefix: \<^verbatim>\<open>0b9f\<close> was never issued, yet it finds the file of
  \<open>token1\<close> and sends it. The document lookup resolves \<^verbatim>\<open>..\<close>: an identifier that
  climbs into the blob directory reaches an uploaded file there, and when that file is not
  JSON the answer is 500.
\<close>

theorem unknown_identifier_counterexample:
  "readdirSync (fileDir (engine_stub ''/srv/app/dist'' []))
       (snd (upload (engine_stub ''/srv/app/dist'' []) token1 5 (Some (''photo.jpg'', ''abc'')) sample_disk))
     = Inr [token1 @ ''.jpg''] \<and>
   get_file (engine_stub ''/srv/app/dist'' []) ''0b9f''
       (snd (upload (engine_stub ''/srv/app/dist'' []) token1 5 (Some (''photo.jpg'', ''abc'')) sample_disk))
     = Reply 200 ''abc'' \<and>
   readdirSync (canvasDir (engine_stub ''/srv/app/dist'' []))
       (snd (upload (engine_stub ''/srv/app/dist'' []) token2 5 (Some (''notes.json'', ''not json'')) sample_disk))
     = Inr [] \<and>
   getById (engine_stub ''/srv/app/dist'' []) (''../file/'' @ token2)
       (snd (upload (engine_stub ''/srv/app/dist'' []) token2 5 (Some (''notes.json'', ''not json'')) sample_disk))
     = Failed 500"
  by code_simp

text \<open>
  C7 as amended. With the blob directory readable, \<^verbatim>\<open>GET /file/:fileId\<close> never answers
  500, and it answers 404 for every identifier that no entry name of the directory
  starts with. With the canvas directory readable, \<^verbatim>\<open>GET /canvas/:id\<close> answers 404 for
  every identifier without \<^verbatim>\<open>/\<close> for which the directory lists no entry \<^verbatim>\<open><id>.json\<close>.
\<close>

theorem unknown_identifier_not_found:
  "(readdirSync (fileDir pf) fs = Inr files \<longrightarrow>
      get_file pf fileId fs \<noteq> Failed 500 \<and>
      (\<not> (\<exists>f \<in> set files. prefix fileId f) \<longrightarrow> get_file pf fileId fs = Failed 404)) \<and>
   (readdirSync (canvasDir pf) fs = Inr names \<and> CHR ''/'' \<notin> set ident \<and> ident @ ''.json'' \<notin> set names \<longrightarrow>
      getById pf ident fs = Failed 404)"
  using get_file_not_500 get_file_unmatched getById_unlisted by blast

theorem unknown_identifier_not_found_witness:
  "readdirSync (fileDir (engine_stub ''/srv/app/dist'' []))
       (snd (upload (engine_stub ''/srv/app/dist'' []) token1 5 (Some (''photo.jpg'', ''abc'')) sample_disk))
     = Inr [token1 @ ''.jpg''] \<and>
   \<not> (\<exists>f \<in> set [token1 @ ''.jpg'']. prefix token2 f) \<and>
   get_file (engine_stub ''/srv/app/dist'' []) token2
       (snd (upload (engine_stub ''/srv/app/dist'' []) token1 5 (Some (''photo.jpg'', ''abc'')) sample_disk))
     = Failed 404 \<and>
   readdirSync (canvasDir (engine_stub ''/srv/app/dist'' []))
       (snd (upload (engine_stub ''/srv/app/dist'' []) token1 5 (Some (''photo.jpg'', ''abc'')) sample_disk))
     = Inr [] \<and>
   CHR ''/'' \<notin> set token2 \<and> token2 @ ''.json'' \<notin> set [] \<and>
   getById (engine_stub ''/srv/app/dist'' []) token2
       (snd (upload (engine_stub ''/srv/app/dist'' []) token1 5 (Some (''photo.jpg'', ''abc'')) sample_disk))
     = Failed 404"
proof -
  let ?pf = "engine_stub ''/srv/app/dist'' []"
  let ?fs = "snd (upload ?pf token1 5 (Some (''photo.jpg'', ''abc'')) sample_disk)"
  have 1: "readdirSync (fileDir ?pf) ?fs = Inr [token1 @ ''.jpg'']" by code_simp
  have 2: "\<not> (\<exists>f \<in> set [token1 @ ''.jpg'']. prefix token2 f)" by code_simp
  have 3: "readdirSync (canvasDir ?pf) ?fs = Inr []" by code_simp
  have 4: "CHR ''/'' \<notin> set token2" by code_simp
  have 5: "token2 @ ''.json'' \<notin> set []" by simp
  from unknown_identifier_not_found [of ?pf ?fs "[token1 @ ''.jpg'']" token2 "[]" token2] 1 2 3 4 5
  show ?thesis by blast
qed

lemma fold_split_render:
  assumes "stack_ok (\<not> isAbs) segs" "segs \<noteq> []"
  shows "foldl (norm_step (\<not> isAbs)) [] (split_slash (render isAbs segs)) = segs"
  using assms by (cases isAbs) (simp_all add: split_render stack_ok_fixed norm_step_def)

lemma render_inj:
  assumes "stack_ok (\<not> isAbs) xs" "xs \<noteq> []" "stack_ok (\<not> isAbs) ys" "ys \<noteq> []"
    and "render isAbs xs = render isAbs ys"
  shows "xs = ys"
proof -
  from assms(5) have "split_slash (render isAbs xs) = split_slash (render isAbs ys)" by simp
  with assms(1-4) show ?thesis by (cases isAbs) (simp_all add: split_render)
qed

lemma canvas_to_file:
  assumes n: "regular n"
  shows "path_join (canvasDir pf) (''../file/'' @ n) = fileDir pf @ CHR ''/'' # n"
proof -
  let ?abs = "absolute (dirname pf)"
  let ?base = "base_stack (dirname pf)"
  let ?S = "?base @ [''canvas'']"
  have okS: "stack_ok (\<not> ?abs) ?S" by (rule dir_stack_ok [OF regular_names(1)])
  have okF: "stack_ok (\<not> ?abs) (?base @ [''file''])" by (rule dir_stack_ok [OF regular_names(2)])
  have ne: "canvasDir pf \<noteq> []" by (rule canvasDir_proper)
  have sp: "split_slash (''../file/'' @ n) = [''..'', ''file''] @ [n]"
    using n by (simp add: split_no_slash regular_def)
  have ab: "absolute (canvasDir pf) = ?abs"
    unfolding canvasDir_render by (rule render_absolute [OF okS]) simp
  have fx: "foldl (norm_step (\<not> ?abs)) [] (split_slash (canvasDir pf)) = ?S"
    unfolding canvasDir_render by (rule fold_split_render [OF okS]) simp
  have pop: "norm_step (\<not> ?abs) ?S ''..'' = ?base" by (simp add: norm_step_def)
  have push: "norm_step (\<not> ?abs) ?base ''file'' = ?base @ [''file'']"
    by (rule norm_step_regular [OF regular_names(2)])
  have "foldl (norm_step (\<not> ?abs)) [] (split_slash (canvasDir pf) @ [''..'', ''file'']) = ?base @ [''file'']"
    by (simp add: fx pop push)
  with path_join_snoc [OF ne sp n]
  have "path_join (canvasDir pf) (''../file/'' @ n) = render ?abs ((?base @ [''file'']) @ [n])"
    by (simp add: ab)
  also have "\<dots> = render ?abs (?base @ [''file'']) @ CHR ''/'' # n"
    using join_snoc [of "?base @ [''file'']" n] unfolding render_def by simp
  finally show ?thesis by (simp add: fileDir_render)
qed

lemma file_canvas_distinct: "fileDir pf \<noteq> canvasDir pf"
proof
  assume eq: "fileDir pf = canvasDir pf"
  let ?abs = "absolute (dirname pf)"
  let ?base = "base_stack (dirname pf)"
  have okS: "stack_ok (\<not> ?abs) (?base @ [''canvas''])" by (rule dir_stack_ok [OF regular_names(1)])
  have okF: "stack_ok (\<not> ?abs) (?base @ [''file''])" by (rule dir_stack_ok [OF regular_names(2)])
  from eq have "render ?abs (?base @ [''file'']) = render ?abs (?base @ [''canvas''])"
    by (simp add: fileDir_render canvasDir_render)
  from render_inj [OF okF _ okS _ this] show False by simp
qed

text \<open>
  C10. \<^verbatim>\<open>GET /canvas/:id\<close> checks nothing about the identifier: it answers 404 exactly
  when the path joined from the canvas directory and \<^verbatim>\<open><id>.json\<close> does not exist. For
  the identifier \<^verbatim>\<open>../file/<u>\<close> that path is the entry \<^verbatim>\<open><u>.json\<close> of the blob
  directory, which is not the canvas directory; when an upload is stored there and its
  bytes parse, the lookup returns them as if they were a document.
\<close>

theorem getById_reads_outside_canvas_dir:
  "(getById pf ident fs = Failed 404 \<longleftrightarrow> \<not> existsSync fs (path_join (canvasDir pf) (ident @ ''.json''))) \<and>
   (CHR ''/'' \<notin> set u \<and> map_of fs (fileDir pf @ CHR ''/'' # u @ ''.json'') = Some (File c) \<and>
    JSON_parse pf c = Some v \<longrightarrow>
      path_join (canvasDir pf) ((''../file/'' @ u) @ ''.json'') = fileDir pf @ CHR ''/'' # u @ ''.json'' \<and>
      parent_dir (fileDir pf @ CHR ''/'' # u @ ''.json'') = fileDir pf \<and>
      fileDir pf \<noteq> canvasDir pf \<and>
      getById pf (''../file/'' @ u) fs = Reply 200 v)"
proof (intro conjI impI)
  show "getById pf ident fs = Failed 404 \<longleftrightarrow> \<not> existsSync fs (path_join (canvasDir pf) (ident @ ''.json''))"
    by (auto simp: getById_def Let_def split: sum.splits)
next
  assume a: "CHR ''/'' \<notin> set u \<and> map_of fs (fileDir pf @ CHR ''/'' # u @ ''.json'') = Some (File c) \<and>
    JSON_parse pf c = Some v"
  then have reg: "regular (u @ ''.json'')" by (simp add: ident_json_regular)
  show pj: "path_join (canvasDir pf) ((''../file/'' @ u) @ ''.json'') = fileDir pf @ CHR ''/'' # u @ ''.json''"
    using canvas_to_file [OF reg, of pf] by simp
  show "parent_dir (fileDir pf @ CHR ''/'' # u @ ''.json'') = fileDir pf"
    unfolding fileDir_render
    by (rule child_parts(1) [OF dir_stack_ok [OF regular_names(2)] _ reg]) simp
  show "fileDir pf \<noteq> canvasDir pf" by (rule file_canvas_distinct)
  from a show "getById pf (''../file/'' @ u) fs = Reply 200 v"
    by (simp add: getById_def pj [simplified] existsSync_def read_canvas_def readFileSync_def)
qed

theorem getById_reads_outside_canvas_dir_witness:
  "CHR ''/'' \<notin> set token2 \<and>
   map_of (snd (upload (engine_stub ''/srv/app/dist'' [(JNum 7, ''7'')]) token2 5 (Some (''notes.json'', ''7'')) sample_disk))
       (fileDir (engine_stub ''/srv/app/dist'' [(JNum 7, ''7'')]) @ CHR ''/'' # token2 @ ''.json'') = Some (File ''7'') \<and>
   JSON_parse (engine_stub ''/srv/app/dist'' [(JNum 7, ''7'')]) ''7'' = Some (JNum 7) \<and>
   getById (engine_stub ''/srv/app/dist'' [(JNum 7, ''7'')]) (''../file/'' @ token2)
       (snd (upload (engine_stub ''/srv/app/dist'' [(JNum 7, ''7'')]) token2 5 (Some (''notes.json'', ''7'')) sample_disk))
     = Reply 200 (JNum 7)"
proof -
  let ?pf = "engine_stub ''/srv/app/dist'' [(JNum 7, ''7'')]"
  let ?fs = "snd (upload ?pf token2 5 (Some (''notes.json'', ''7'')) sample_disk)"
  have 1: "CHR ''/'' \<notin> set token2" by code_simp
  have 2: "map_of ?fs (fileDir ?pf @ CHR ''/'' # token2 @ ''.json'') = Some (File ''7'')" by code_simp
  have 3: "JSON_parse ?pf ''7'' = Some (JNum 7)" by code_simp
  from getById_reads_outside_canvas_dir [of ?pf _ ?fs token2 "''7''" "JNum 7"] 1 2 3
  show ?thesis by blast
qed

end
